theory Spec2Isabelle
  imports Main
begin

section \<open>Python strings\<close>

text \<open>
  A Python \<open>str\<close> is a sequence of Unicode code points, and \<open>len\<close>, indexing and slicing
  count code points. A text is therefore a list of code points (natural numbers); \<open>lit\<close>
  writes an ASCII literal of the source as such a list.
\<close>

type_synonym codepoint = nat
type_synonym str = "codepoint list"

definition lit :: "string \<Rightarrow> str" where
  "lit s = map of_char s"

text \<open>
  \<open>str.split\<close>, \<open>str.rsplit\<close>, \<open>str.strip\<close> (without a separator) and the regular
  expression class \<open>\s\<close> all use the interpreter's whitespace test on a code point: the
  ASCII controls 9-13 and 28-31, the space, and the Unicode spaces and separators.
\<close>

definition isspace :: "codepoint \<Rightarrow> bool" where
  "isspace c = (c \<in> set [9, 10, 11, 12, 13, 28, 29, 30, 31, 32, 133, 160, 5760,
       8192, 8193, 8194, 8195, 8196, 8197, 8198, 8199, 8200, 8201, 8202,
       8232, 8233, 8239, 8287, 12288])"

text \<open>
  \<open>content[a:b]\<close> for indices \<open>0 \<le> a\<close>, \<open>0 \<le> b\<close>: the characters at positions
  \<open>a \<le> i < min b (len content)\<close>, the empty string when \<open>b \<le> a\<close>.
\<close>

definition slice :: "str \<Rightarrow> nat \<Rightarrow> nat \<Rightarrow> str" where
  "slice content a b = take (b - a) (drop a content)"

text \<open>
  \<open>s.find(sub, start)\<close>: the lowest index \<open>i \<ge> start\<close> at which \<open>sub\<close> occurs in \<open>s\<close>;
  Python's \<open>-1\<close> (no occurrence) is \<open>None\<close>.
\<close>

definition find_str :: "str \<Rightarrow> str \<Rightarrow> nat \<Rightarrow> nat option" where
  "find_str s sub start =
     List.find (\<lambda>i. take (length sub) (drop i s) = sub) [start ..< Suc (length s)]"

section \<open>The locator: \<open>_find_roll_expr_indices\<close>\<close>

text \<open>A candidate is the tuple \<open>(start, expr_start, expr_end, end)\<close> the generator yields.\<close>

type_synonym candidate = "nat \<times> nat \<times> nat \<times> nat"

lemma find_str_SomeD:
  assumes "find_str s sub a = Some i"
  shows "a \<le> i" and "take (length sub) (drop i s) = sub" and "i \<le> length s"
    and "\<And>j. a \<le> j \<Longrightarrow> j < i \<Longrightarrow> take (length sub) (drop j s) \<noteq> sub"
proof -
  from assms obtain k where k: "k < length [a ..< Suc (length s)]"
      "take (length sub) (drop ([a ..< Suc (length s)] ! k) s) = sub"
      "i = [a ..< Suc (length s)] ! k"
      "\<forall>j<k. take (length sub) (drop ([a ..< Suc (length s)] ! j) s) \<noteq> sub"
    unfolding find_str_def find_Some_iff by blast
  from k(1) have kl: "a + k < Suc (length s)"
    by (simp del: upt_Suc)
  then have ik: "i = a + k"
    using k(3) by (simp del: upt_Suc)
  show "a \<le> i" using ik by simp
  show "i \<le> length s" using ik kl by simp
  show "take (length sub) (drop i s) = sub" using k(2) k(3) by simp
  show "take (length sub) (drop j s) \<noteq> sub" if "a \<le> j" "j < i" for j
  proof -
    from that ik have "j - a < k" by arith
    with k(4) have "take (length sub) (drop ([a ..< Suc (length s)] ! (j - a)) s) \<noteq> sub"
      by blast
    moreover have "[a ..< Suc (length s)] ! (j - a) = j"
      using that ik kl by (simp del: upt_Suc)
    ultimately show ?thesis by simp
  qed
qed

lemma find_str_NoneD:
  assumes "find_str s sub a = None" and "a \<le> j" and "j \<le> length s"
  shows "take (length sub) (drop j s) \<noteq> sub"
proof -
  from assms(2,3) have "j \<in> set [a ..< Suc (length s)]" by (simp del: upt_Suc)
  with assms(1) show ?thesis
    unfolding find_str_def find_None_iff by blast
qed

lemma find_str_ex:
  assumes "a \<le> j" and "j \<le> length s" and "take (length sub) (drop j s) = sub"
  shows "\<exists>i. find_str s sub a = Some i \<and> i \<le> j"
proof (cases "find_str s sub a")
  case None
  with assms show ?thesis using find_str_NoneD by blast
next
  case (Some i)
  have "i \<le> j"
  proof (rule ccontr)
    assume "\<not> i \<le> j"
    then have "j < i" by simp
    with find_str_SomeD(4)[OF Some assms(1)] assms(3) show False by blast
  qed
  with Some show ?thesis by simp
qed

text \<open>An occurrence of a two-character delimiter \<open>[c, c]\<close>, read by index.\<close>

lemma take2_drop_iff:
  "take 2 (drop i s) = [c, d] \<longleftrightarrow> Suc i < length s \<and> s ! i = c \<and> s ! Suc i = d"
proof
  assume h: "take 2 (drop i s) = [c, d]"
  then have "length (take 2 (drop i s)) = 2" by simp
  then have l: "Suc i < length s" by auto
  from h have "take 2 (drop i s) ! 0 = c" "take 2 (drop i s) ! 1 = d" by simp_all
  with l show "Suc i < length s \<and> s ! i = c \<and> s ! Suc i = d" by simp
next
  assume h: "Suc i < length s \<and> s ! i = c \<and> s ! Suc i = d"
  then have "length (take 2 (drop i s)) = 2" by auto
  moreover from h have "take 2 (drop i s) ! 0 = c" "take 2 (drop i s) ! 1 = d" by simp_all
  ultimately show "take 2 (drop i s) = [c, d]"
    by (metis (no_types, lifting) One_nat_def Suc_1 length_0_conv length_Suc_conv nth_Cons_0 nth_Cons_Suc)
qed


lemma lit_open: "lit ''[['' = [91, 91]"
  by (simp add: lit_def)

lemma lit_close: "lit '']]'' = [93, 93]"
  by (simp add: lit_def)

lemma open_at:
  "take 2 (drop i s) = lit ''[['' \<longleftrightarrow> Suc i < length s \<and> s ! i = 91 \<and> s ! Suc i = 91"
  unfolding lit_open by (rule take2_drop_iff)

lemma close_at:
  "take 2 (drop i s) = lit '']]'' \<longleftrightarrow> Suc i < length s \<and> s ! i = 93 \<and> s ! Suc i = 93"
  unfolding lit_close by (rule take2_drop_iff)

lemma find_open_SomeD:
  assumes "find_str s (lit ''[['') a = Some i"
  shows "a \<le> i" and "take 2 (drop i s) = lit ''[[''"
proof -
  have "length (lit ''[['') = 2" by (simp add: lit_open)
  with find_str_SomeD(2)[OF assms] show "take 2 (drop i s) = lit ''[[''" by simp
  show "a \<le> i" by (rule find_str_SomeD(1)[OF assms])
qed

lemma find_close_SomeD:
  assumes "find_str s (lit '']]'') a = Some i"
  shows "a \<le> i" and "take 2 (drop i s) = lit '']]''"
proof -
  have "length (lit '']]'') = 2" by (simp add: lit_close)
  with find_str_SomeD(2)[OF assms] show "take 2 (drop i s) = lit '']]''" by simp
  show "a \<le> i" by (rule find_str_SomeD(1)[OF assms])
qed

lemma find_open_ex:
  assumes "a \<le> j" and "take 2 (drop j s) = lit ''[[''"
  shows "\<exists>i. find_str s (lit ''[['') a = Some i \<and> i \<le> j"
proof -
  have l: "length (lit ''[['') = 2" by (simp add: lit_open)
  from assms(2) have "j \<le> length s" by (simp add: open_at)
  moreover from assms(2) l have "take (length (lit ''[['')) (drop j s) = lit ''[[''" by simp
  ultimately show ?thesis using find_str_ex[OF assms(1)] by blast
qed

lemma find_close_ex:
  assumes "a \<le> j" and "take 2 (drop j s) = lit '']]''"
  shows "\<exists>i. find_str s (lit '']]'') a = Some i \<and> i \<le> j"
proof -
  have l: "length (lit '']]'') = 2" by (simp add: lit_close)
  from assms(2) have "j \<le> length s" by (simp add: close_at)
  moreover from assms(2) l have "take (length (lit '']]'')) (drop j s) = lit '']]''" by simp
  ultimately show ?thesis using find_str_ex[OF assms(1)] by blast
qed

lemma open_before_close:
  assumes "find_str content (lit ''[['') a = Some start"
    and "find_str content (lit '']]'') start = Some e"
  shows "start + 2 \<le> e" and "e + 2 \<le> length content"
proof -
  from find_open_SomeD(2)[OF assms(1)]
  have o: "Suc start < length content" "content ! start = 91" "content ! Suc start = 91"
    by (simp_all add: open_at)
  from find_close_SomeD(2)[OF assms(2)]
  have c: "Suc e < length content" "content ! e = 93" "content ! Suc e = 93"
    by (simp_all add: close_at)
  have "start \<le> e" by (rule find_close_SomeD(1)[OF assms(2)])
  moreover have "e \<noteq> start" using o c by auto
  moreover have "e \<noteq> Suc start" using o c by auto
  ultimately show "start + 2 \<le> e" by arith
  show "e + 2 \<le> length content" using c by simp
qed

text \<open>
  The generator's only state is \<open>end\<close>, the position the next search for an opening
  delimiter starts from (0 at first, then the index of the last closing delimiter found).
  The loop ends when no opening delimiter is left, and breaks when an opening delimiter
  has no closing delimiter after it.
\<close>

function find_roll_expr_indices_from :: "str \<Rightarrow> nat \<Rightarrow> candidate list" where
  "find_roll_expr_indices_from content end_idx =
     (case find_str content (lit ''[['') end_idx of
        None \<Rightarrow> []
      | Some start \<Rightarrow>
          (case find_str content (lit '']]'') start of
             None \<Rightarrow> []
           | Some end_idx' \<Rightarrow>
               (start, start + 2, end_idx', end_idx' + 2)
                 # find_roll_expr_indices_from content end_idx'))"
  by pat_completeness auto

termination
proof (relation "measure (\<lambda>(content, end_idx). length content - end_idx)")
  show "wf (measure (\<lambda>(content, end_idx). length content - end_idx))" by simp
next
  fix content :: str and end_idx start end_idx' :: nat
  assume o: "find_str content (lit ''[['') end_idx = Some start"
    and c: "find_str content (lit '']]'') start = Some end_idx'"
  have "end_idx \<le> start" by (rule find_str_SomeD(1)[OF o])
  with open_before_close[OF o c]
  show "((content, end_idx'), (content, end_idx))
          \<in> measure (\<lambda>(content, end_idx). length content - end_idx)"
    by simp
qed

definition find_roll_expr_indices :: "str \<Rightarrow> candidate list" where
  "find_roll_expr_indices content = find_roll_expr_indices_from content 0"

declare find_roll_expr_indices_from.simps [simp del]

text \<open>
  What the specification calls \<open>k\<close> disjoint, well-formed pairs, as a predicate on the
  text: the pairs are listed from left to right by the index \<open>opn\<close> of the opening and
  the index \<open>cls\<close> of the closing delimiter, each closing delimiter stands after its
  opening delimiter, and the next pair begins after the previous one has ended (at or
  after position \<open>a\<close> for the first).
\<close>

fun disjoint_pairs :: "str \<Rightarrow> nat \<Rightarrow> (nat \<times> nat) list \<Rightarrow> bool" where
  "disjoint_pairs content a [] = True"
| "disjoint_pairs content a ((opn, cls) # ps) =
     (a \<le> opn \<and> take 2 (drop opn content) = lit ''[['' \<and> opn + 2 \<le> cls \<and>
      take 2 (drop cls content) = lit '']]'' \<and> disjoint_pairs content (cls + 2) ps)"

text \<open>The delimiter indices of a candidate.\<close>

definition delims :: "candidate \<Rightarrow> nat \<times> nat" where
  "delims c = (case c of (start, expr_start, expr_end, end_idx) \<Rightarrow> (start, expr_end))"

text \<open>The shape of a candidate: the expression lies between the two delimiters.\<close>

definition candidate_shape :: "candidate \<Rightarrow> bool" where
  "candidate_shape c =
     (case c of (start, expr_start, expr_end, end_idx) \<Rightarrow>
        expr_start = start + 2 \<and> end_idx = expr_end + 2)"

lemma delims_tuple [simp]: "delims (start, expr_start, expr_end, end_idx) = (start, expr_end)"
  by (simp add: delims_def)

lemma candidate_shape_tuple [simp]:
  "candidate_shape (start, expr_start, expr_end, end_idx) \<longleftrightarrow>
     expr_start = start + 2 \<and> end_idx = expr_end + 2"
  by (simp add: candidate_shape_def)

lemma disjoint_pairs_after_close:
  assumes "disjoint_pairs content a ps" and "take 2 (drop a content) = lit '']]''"
  shows "disjoint_pairs content (a + 2) ps"
proof (cases ps)
  case Nil
  then show ?thesis by simp
next
  case (Cons p ps')
  obtain opn cls where p: "p = (opn, cls)" by (cases p)
  from assms(1) Cons p have o: "a \<le> opn" "Suc opn < length content"
      "content ! opn = 91" "content ! Suc opn = 91"
    by (simp_all add: open_at)
  from assms(2) have c: "content ! a = 93" "content ! Suc a = 93"
    by (simp_all add: close_at)
  have "opn \<noteq> a" "opn \<noteq> Suc a" using o c by auto
  with o(1) have "a + 2 \<le> opn" by arith
  with assms(1) Cons p show ?thesis by simp
qed

lemma from_disjoint_pairs:
  "disjoint_pairs content a (map delims (find_roll_expr_indices_from content a))"
proof (induction content a rule: find_roll_expr_indices_from.induct)
  case (1 content a)
  show ?case
  proof (cases "find_str content (lit ''[['') a")
    case None
    then show ?thesis by (simp add: find_roll_expr_indices_from.simps[of content a])
  next
    case (Some start)
    note o = Some
    show ?thesis
    proof (cases "find_str content (lit '']]'') start")
      case None
      with o show ?thesis by (simp add: find_roll_expr_indices_from.simps[of content a])
    next
      case (Some e)
      have ih: "disjoint_pairs content e (map delims (find_roll_expr_indices_from content e))"
        using "1.IH"[OF o Some] .
      have "disjoint_pairs content (e + 2) (map delims (find_roll_expr_indices_from content e))"
        by (rule disjoint_pairs_after_close[OF ih find_close_SomeD(2)[OF Some]])
      moreover have "a \<le> start" by (rule find_open_SomeD(1)[OF o])
      moreover have "take 2 (drop start content) = lit ''[[''"
        by (rule find_open_SomeD(2)[OF o])
      moreover have "take 2 (drop e content) = lit '']]''"
        by (rule find_close_SomeD(2)[OF Some])
      moreover note open_before_close(1)[OF o Some]
      ultimately show ?thesis
        using o Some
        by (simp add: find_roll_expr_indices_from.simps[of content a])
    qed
  qed
qed

lemma from_shape:
  "list_all candidate_shape (find_roll_expr_indices_from content a)"
proof (induction content a rule: find_roll_expr_indices_from.induct)
  case (1 content a)
  show ?case
    using "1.IH"
    by (simp add: find_roll_expr_indices_from.simps[of content a] split: option.splits)
qed

text \<open>
  No family of disjoint well-formed pairs of the text is larger than the list of
  candidates: the scan takes the first opening delimiter and the first closing delimiter
  after it, so its \<open>i\<close>-th candidate ends no later than the \<open>i\<close>-th pair of any family.
\<close>

lemma from_maximal:
  "disjoint_pairs content a ps \<Longrightarrow> length ps \<le> length (find_roll_expr_indices_from content a)"
proof (induction ps arbitrary: a)
  case Nil
  then show ?case by simp
next
  case (Cons p ps)
  obtain opn cls where p: "p = (opn, cls)" by (cases p)
  from Cons.prems p have h: "a \<le> opn" "take 2 (drop opn content) = lit ''[[''"
      "opn + 2 \<le> cls" "take 2 (drop cls content) = lit '']]''"
      "disjoint_pairs content (cls + 2) ps"
    by simp_all
  from find_open_ex[OF h(1,2)]
  obtain start where s: "find_str content (lit ''[['') a = Some start" "start \<le> opn"
    by blast
  from s(2) h(3) have "start \<le> cls" by simp
  from find_close_ex[OF this h(4)]
  obtain e where e: "find_str content (lit '']]'') start = Some e" "e \<le> cls"
    by blast
  have "disjoint_pairs content e ps"
  proof (cases ps)
    case Nil
    then show ?thesis by simp
  next
    case (Cons q qs)
    with h(5) e(2) show ?thesis by (cases q) simp
  qed
  from Cons.IH[OF this] s(1) e(1) show ?case
    by (simp add: find_roll_expr_indices_from.simps[of content a])
qed


text \<open>The two results of \<open>find\<close> for a delimiter of two equal characters, by index.\<close>

lemma find2_Some_iff:
  "find_str s [c, c] a = Some i \<longleftrightarrow>
     a \<le> i \<and> Suc i < length s \<and> s ! i = c \<and> s ! Suc i = c \<and>
     (\<forall>j. a \<le> j \<and> j < i \<longrightarrow> \<not> (s ! j = c \<and> s ! Suc j = c))"
proof
  assume h: "find_str s [c, c] a = Some i"
  from find_str_SomeD(2)[OF h] have occ: "take 2 (drop i s) = [c, c]"
    by (simp add: numeral_2_eq_2)
  then have i: "Suc i < length s" "s ! i = c" "s ! Suc i = c"
    by (simp_all add: take2_drop_iff)
  have "\<not> (s ! j = c \<and> s ! Suc j = c)" if "a \<le> j" "j < i" for j
  proof -
    from find_str_SomeD(4)[OF h that] have "take 2 (drop j s) \<noteq> [c, c]"
      by (simp add: numeral_2_eq_2)
    moreover from that i(1) have "Suc j < length s" by simp
    ultimately show ?thesis by (simp add: take2_drop_iff)
  qed
  with find_str_SomeD(1)[OF h] i
  show "a \<le> i \<and> Suc i < length s \<and> s ! i = c \<and> s ! Suc i = c \<and>
     (\<forall>j. a \<le> j \<and> j < i \<longrightarrow> \<not> (s ! j = c \<and> s ! Suc j = c))"
    by blast
next
  assume h: "a \<le> i \<and> Suc i < length s \<and> s ! i = c \<and> s ! Suc i = c \<and>
     (\<forall>j. a \<le> j \<and> j < i \<longrightarrow> \<not> (s ! j = c \<and> s ! Suc j = c))"
  then have "take 2 (drop i s) = [c, c]"
    by (simp add: take2_drop_iff)
  then have occ: "take (length [c, c]) (drop i s) = [c, c]"
    by (simp add: numeral_2_eq_2)
  from h have "i \<le> length s" by simp
  with find_str_ex[of a i s "[c, c]"] h occ
  obtain i' where i': "find_str s [c, c] a = Some i'" "i' \<le> i" by blast
  from find_str_SomeD(2)[OF i'(1)] have "take 2 (drop i' s) = [c, c]"
    by (simp add: numeral_2_eq_2)
  then have "s ! i' = c \<and> s ! Suc i' = c" by (simp add: take2_drop_iff)
  moreover have "a \<le> i'" by (rule find_str_SomeD(1)[OF i'(1)])
  ultimately have "\<not> i' < i" using h by blast
  with i' show "find_str s [c, c] a = Some i" by simp
qed

lemma find2_None_iff:
  "find_str s [c, c] a = None \<longleftrightarrow>
     (\<forall>j. a \<le> j \<and> Suc j < length s \<longrightarrow> \<not> (s ! j = c \<and> s ! Suc j = c))"
proof
  assume h: "find_str s [c, c] a = None"
  show "\<forall>j. a \<le> j \<and> Suc j < length s \<longrightarrow> \<not> (s ! j = c \<and> s ! Suc j = c)"
  proof (intro allI impI)
    fix j assume j: "a \<le> j \<and> Suc j < length s"
    then have "j \<le> length s" by simp
    from find_str_NoneD[OF h _ this] j have "take 2 (drop j s) \<noteq> [c, c]"
      by (simp add: numeral_2_eq_2)
    with j show "\<not> (s ! j = c \<and> s ! Suc j = c)" by (simp add: take2_drop_iff)
  qed
next
  assume h: "\<forall>j. a \<le> j \<and> Suc j < length s \<longrightarrow> \<not> (s ! j = c \<and> s ! Suc j = c)"
  show "find_str s [c, c] a = None"
  proof (cases "find_str s [c, c] a")
    case None
    then show ?thesis .
  next
    case (Some i)
    then have "a \<le> i \<and> Suc i < length s \<and> s ! i = c \<and> s ! Suc i = c"
      by (simp add: find2_Some_iff)
    with h show ?thesis by blast
  qed
qed

text \<open>An occurrence found in a text is found in every extension of the text.\<close>

lemma find2_append:
  assumes "find_str s [c, c] a = Some i"
  shows "find_str (s @ t) [c, c] a = Some i"
proof -
  from assms have h: "a \<le> i" "Suc i < length s" "s ! i = c" "s ! Suc i = c"
      "\<And>j. a \<le> j \<Longrightarrow> j < i \<Longrightarrow> \<not> (s ! j = c \<and> s ! Suc j = c)"
    by (simp_all add: find2_Some_iff)
  have "\<not> ((s @ t) ! j = c \<and> (s @ t) ! Suc j = c)" if "a \<le> j" "j < i" for j
    using h(5)[OF that] that h(2) by (simp add: nth_append)
  with h(1-4) show ?thesis
    by (simp add: find2_Some_iff nth_append)
qed

text \<open>
  After a text, an opening delimiter and a rest with no closing delimiter in it: no
  closing delimiter begins at the last character of the text or later.
\<close>

lemma no_close_in_tail:
  assumes "find_str rest (lit '']]'') 0 = None" and "length content \<le> Suc j"
    and "Suc j < length (content @ lit ''[['' @ rest)"
  shows "\<not> ((content @ lit ''[['' @ rest) ! j = 93 \<and> (content @ lit ''[['' @ rest) ! Suc j = 93)"
proof -
  let ?n = "length content"
  from assms(1) have r: "\<And>k. Suc k < length rest \<Longrightarrow> \<not> (rest ! k = 93 \<and> rest ! Suc k = 93)"
    by (simp add: lit_close find2_None_iff)
  consider "Suc j = ?n" | "j = ?n" | "j = Suc ?n" | "Suc (Suc ?n) \<le> j"
    using assms(2) by arith
  then show ?thesis
  proof cases
    case 1
    then have "(content @ lit ''[['' @ rest) ! Suc j \<noteq> 93"
      by (simp add: nth_append lit_open)
    then show ?thesis by blast
  next
    case 2
    then have "(content @ lit ''[['' @ rest) ! j \<noteq> 93"
      by (simp add: nth_append lit_open)
    then show ?thesis by blast
  next
    case 3
    then have "(content @ lit ''[['' @ rest) ! j \<noteq> 93"
      by (simp add: nth_append lit_open)
    then show ?thesis by blast
  next
    case 4
    define k where "k = j - Suc (Suc ?n)"
    from 4 have j: "j = ?n + (2 + k)" by (simp add: k_def)
    have "(content @ lit ''[['' @ rest) ! j = rest ! k"
      unfolding j by (simp add: lit_open nth_append)
    moreover have "(content @ lit ''[['' @ rest) ! Suc j = rest ! Suc k"
      unfolding j by (simp add: lit_open nth_append)
    moreover from assms(3) have "Suc k < length rest"
      unfolding j by (simp add: lit_open)
    ultimately show ?thesis using r by simp
  qed
qed

lemma find_close_trailing:
  assumes "find_str rest (lit '']]'') 0 = None"
  shows "find_str (content @ lit ''[['' @ rest) (lit '']]'') b = find_str content (lit '']]'') b"
proof (cases "find_str content (lit '']]'') b")
  case (Some i)
  then show ?thesis by (simp add: lit_close find2_append)
next
  case None
  have "\<not> ((content @ lit ''[['' @ rest) ! j = 93 \<and> (content @ lit ''[['' @ rest) ! Suc j = 93)"
    if "b \<le> j" "Suc j < length (content @ lit ''[['' @ rest)" for j
  proof (cases "Suc j < length content")
    case True
    with None that(1) have "\<not> (content ! j = 93 \<and> content ! Suc j = 93)"
      by (simp add: lit_close find2_None_iff)
    with True show ?thesis by (simp add: nth_append)
  next
    case False
    then have "length content \<le> Suc j" by simp
    from no_close_in_tail[OF assms this that(2)] show ?thesis .
  qed
  then have "find_str (content @ lit ''[['' @ rest) (lit '']]'') b = None"
    unfolding lit_close find2_None_iff by blast
  with None show ?thesis by simp
qed

lemma find_open_trailing:
  assumes "find_str rest (lit '']]'') 0 = None"
    and "find_str content (lit ''[['') a = None"
    and "find_str (content @ lit ''[['' @ rest) (lit ''[['') a = Some s"
  shows "find_str (content @ lit ''[['' @ rest) (lit '']]'') s = None"
proof -
  from assms(3) have s: "a \<le> s" "(content @ lit ''[['' @ rest) ! s = 91"
      "(content @ lit ''[['' @ rest) ! Suc s = 91"
    by (simp_all add: lit_open find2_Some_iff)
  have "length content \<le> Suc s"
  proof (rule ccontr)
    assume "\<not> length content \<le> Suc s"
    then have l: "Suc s < length content" by simp
    with s have "content ! s = 91 \<and> content ! Suc s = 91" by (simp add: nth_append)
    moreover from assms(2)
    have "\<forall>j. a \<le> j \<and> Suc j < length content \<longrightarrow> \<not> (content ! j = 91 \<and> content ! Suc j = 91)"
      unfolding lit_open find2_None_iff .
    ultimately show False using s(1) l by blast
  qed
  then have "\<not> ((content @ lit ''[['' @ rest) ! j = 93 \<and> (content @ lit ''[['' @ rest) ! Suc j = 93)"
    if "s \<le> j" "Suc j < length (content @ lit ''[['' @ rest)" for j
    using no_close_in_tail[OF assms(1) _ that(2)] that(1) by simp
  then show ?thesis
    unfolding lit_close find2_None_iff by blast
qed

text \<open>
  A trailing opening delimiter with no closing delimiter after it changes nothing: the
  candidates of the text with it are the candidates of the text without it.
\<close>

lemma from_trailing_open:
  assumes "find_str rest (lit '']]'') 0 = None"
  shows "find_roll_expr_indices_from (content @ lit ''[['' @ rest) a
           = find_roll_expr_indices_from content a"
proof (induction content a rule: find_roll_expr_indices_from.induct)
  case (1 content a)
  let ?t = "content @ lit ''[['' @ rest"
  show ?case
  proof (cases "find_str content (lit ''[['') a")
    case None
    note n = None
    show ?thesis
    proof (cases "find_str ?t (lit ''[['') a")
      case None
      with n show ?thesis
        by (simp add: find_roll_expr_indices_from.simps[of _ a])
    next
      case (Some s)
      from find_open_trailing[OF assms n Some] Some n show ?thesis
        by (simp add: find_roll_expr_indices_from.simps[of _ a])
    qed
  next
    case (Some start)
    then have o: "find_str ?t (lit ''[['') a = Some start"
      by (simp add: lit_open find2_append)
    have c: "find_str ?t (lit '']]'') start = find_str content (lit '']]'') start"
      by (rule find_close_trailing[OF assms])
    show ?thesis
    proof (cases "find_str content (lit '']]'') start")
      case None
      with Some o c show ?thesis
        by (simp add: find_roll_expr_indices_from.simps[of _ a])
    next
      case (Some e)
      note ih = "1.IH"[OF \<open>find_str content (lit ''[['') a = Some start\<close> Some]
      from Some o c ih \<open>find_str content (lit ''[['') a = Some start\<close> show ?thesis
        by (simp add: find_roll_expr_indices_from.simps[of _ a])
    qed
  qed
qed


lemma disjoint_pairs_ordered:
  "disjoint_pairs content a ps \<Longrightarrow>
     sorted_wrt (\<lambda>p q. snd p + 2 \<le> fst q) ps \<and> (\<forall>p\<in>set ps. a \<le> fst p \<and> fst p + 2 \<le> snd p)"
proof (induction ps arbitrary: a)
  case Nil
  then show ?case by simp
next
  case (Cons p ps)
  obtain opn cls where p: "p = (opn, cls)" by (cases p)
  from Cons.prems p have h: "a \<le> opn" "opn + 2 \<le> cls" "disjoint_pairs content (cls + 2) ps"
    by simp_all
  from Cons.IH[OF h(3)] h(1,2) p show ?case by fastforce
qed

subsection \<open>The locator finds every pair, in order, and nothing else\<close>

text \<open>
  Claim C3. For any text containing \<open>k\<close> disjoint well-formed \<open>[[...]]\<close> pairs the locator
  yields exactly \<open>k\<close> candidates in strictly left-to-right order, and a trailing unmatched
  \<open>[[\<close> with no later \<open>]]\<close> yields no additional (partial) candidate. In full: the
  candidates are themselves disjoint well-formed pairs of the text listed from left to
  right, each of the shape \<open>(start, start + 2, end, end + 2)\<close> with strictly increasing
  \<open>start\<close>; no family of disjoint well-formed pairs of the text has more members than
  there are candidates, so when the pairs \<open>ps\<close> of the text are as many as the text
  contains (\<open>k = length ps\<close>), there are exactly \<open>k\<close> candidates; and appending \<open>[[\<close> and
  any rest without \<open>]]\<close> to the text leaves the list of candidates as it is.
\<close>

theorem find_roll_expr_indices_pairs:
  "disjoint_pairs content 0 (map delims (find_roll_expr_indices content))
   \<and> list_all candidate_shape (find_roll_expr_indices content)
   \<and> sorted_wrt (<) (map fst (find_roll_expr_indices content))
   \<and> (disjoint_pairs content 0 ps \<longrightarrow> length ps \<le> length (find_roll_expr_indices content))
   \<and> (disjoint_pairs content 0 ps
        \<and> (\<forall>qs. disjoint_pairs content 0 qs \<longrightarrow> length qs \<le> length ps)
        \<longrightarrow> length (find_roll_expr_indices content) = length ps)
   \<and> (find_str rest (lit '']]'') 0 = None
        \<longrightarrow> find_roll_expr_indices (content @ lit ''[['' @ rest)
              = find_roll_expr_indices content)"
proof -
  let ?cs = "find_roll_expr_indices content"
  have dp: "disjoint_pairs content 0 (map delims ?cs)"
    unfolding find_roll_expr_indices_def by (rule from_disjoint_pairs)
  have shape: "list_all candidate_shape ?cs"
    unfolding find_roll_expr_indices_def by (rule from_shape)
  have s1: "sorted_wrt (\<lambda>p q. snd p + 2 \<le> fst q) (map delims ?cs)"
    using disjoint_pairs_ordered[OF dp] by blast
  have s2: "\<forall>p\<in>set (map delims ?cs). fst p + 2 \<le> snd p"
    using disjoint_pairs_ordered[OF dp] by blast
  have "sorted_wrt (\<lambda>p q. fst p < fst q) (map delims ?cs)"
  proof (rule sorted_wrt_mono_rel[OF _ s1])
    fix p q :: "nat \<times> nat"
    assume "p \<in> set (map delims ?cs)" and "snd p + 2 \<le> fst q"
    with s2 show "fst p < fst q" by fastforce
  qed
  then have "sorted_wrt (\<lambda>c d. fst (delims c) < fst (delims d)) ?cs"
    by (simp add: sorted_wrt_map)
  moreover have "fst (delims c) = fst c" for c :: candidate
    by (cases c) simp
  ultimately have sorted: "sorted_wrt (<) (map fst ?cs)"
    by (simp add: sorted_wrt_map)
  have maximal: "length qs \<le> length ?cs" if "disjoint_pairs content 0 qs" for qs
    unfolding find_roll_expr_indices_def by (rule from_maximal[OF that])
  have exact: "length ?cs = length ps"
    if "disjoint_pairs content 0 ps"
      and "\<forall>qs. disjoint_pairs content 0 qs \<longrightarrow> length qs \<le> length ps"
  proof -
    from that(2) dp have "length (map delims ?cs) \<le> length ps" by blast
    with maximal[OF that(1)] show ?thesis by simp
  qed
  have trailing: "find_roll_expr_indices (content @ lit ''[['' @ rest) = ?cs"
    if "find_str rest (lit '']]'') 0 = None"
    unfolding find_roll_expr_indices_def by (rule from_trailing_open[OF that])
  from dp shape sorted maximal exact trailing show ?thesis by blast
qed

text \<open>
  The text \<open>a [[1d20]] b [[2d6]]\<close> has the two pairs at 2-8 and 13-18, and the trailing
  \<open>[[ c\<close> adds no candidate.
\<close>

theorem find_roll_expr_indices_pairs_witness:
  "disjoint_pairs (lit ''a [[1d20]] b [[2d6]]'') 0 [(2, 8), (13, 18)]
   \<and> find_str (lit '' c'') (lit '']]'') 0 = None
   \<and> find_roll_expr_indices (lit ''a [[1d20]] b [[2d6]]'') = [(2, 4, 8, 10), (13, 15, 18, 20)]
   \<and> length [(2, 8), (13, 18) :: nat \<times> nat]
        \<le> length (find_roll_expr_indices (lit ''a [[1d20]] b [[2d6]]''))
   \<and> find_roll_expr_indices (lit ''a [[1d20]] b [[2d6]]'' @ lit ''[['' @ lit '' c'')
        = [(2, 4, 8, 10), (13, 15, 18, 20)]"
proof -
  have p: "disjoint_pairs (lit ''a [[1d20]] b [[2d6]]'') 0 [(2, 8), (13, 18)]"
    by code_simp
  have r: "find_str (lit '' c'') (lit '']]'') 0 = None"
    by code_simp
  have v: "find_roll_expr_indices (lit ''a [[1d20]] b [[2d6]]'') = [(2, 4, 8, 10), (13, 15, 18, 20)]"
    by code_simp
  from find_roll_expr_indices_pairs[of "lit ''a [[1d20]] b [[2d6]]''" "[(2, 8), (13, 18)]" "lit '' c''"]
    p r v
  show ?thesis by simp
qed



section \<open>Splitting on whitespace\<close>

lemma dropWhile_nonspace_shorter:
  assumes "dropWhile isspace s \<noteq> []"
  shows "length (dropWhile (\<lambda>c. \<not> isspace c) (dropWhile isspace s)) < length s"
proof -
  obtain x xs where r: "dropWhile isspace s = x # xs"
    using assms by (cases "dropWhile isspace s") auto
  then have "\<not> isspace x" using hd_dropWhile[of isspace s] by auto
  with r have "dropWhile (\<lambda>c. \<not> isspace c) (dropWhile isspace s) = dropWhile (\<lambda>c. \<not> isspace c) xs"
    by simp
  moreover have "length (dropWhile (\<lambda>c. \<not> isspace c) xs) \<le> length xs"
    by (rule length_dropWhile_le)
  moreover have "length (x # xs) \<le> length s"
    using length_dropWhile_le[of isspace s] r by simp
  ultimately show ?thesis by simp
qed

text \<open>
  \<open>s.split(maxsplit=k)\<close> without a separator, as the interpreter computes it: skip the
  whitespace; at the end of the string stop; when \<open>k\<close> splits have been made the rest of
  the string (from its first non-blank character, trailing whitespace kept) is the last
  element; otherwise the next run of non-blank characters is an element. \<open>None\<close> is the
  default \<open>maxsplit=-1\<close>: no limit, so \<open>split_ws s None\<close> is \<open>s.split()\<close>, the list of the
  whitespace-separated tokens of \<open>s\<close>.
\<close>

function split_ws :: "str \<Rightarrow> nat option \<Rightarrow> str list" where
  "split_ws s maxsplit =
     (let r = dropWhile isspace s in
      if r = [] then []
      else if maxsplit = Some 0 then [r]
      else takeWhile (\<lambda>c. \<not> isspace c) r
             # split_ws (dropWhile (\<lambda>c. \<not> isspace c) r) (map_option (\<lambda>k. k - 1) maxsplit))"
  by pat_completeness auto

termination
  by (relation "measure (\<lambda>(s, maxsplit). length s)") (auto simp: dropWhile_nonspace_shorter)

declare split_ws.simps [simp del]

text \<open>
  \<open>s.rsplit(maxsplit=k)\<close> is the same scan from the right: the elements are found from
  the end of the string, and the element left over when \<open>k\<close> splits have been made is the
  beginning of the string (leading whitespace kept, trailing whitespace removed).
\<close>

definition rsplit_ws :: "str \<Rightarrow> nat option \<Rightarrow> str list" where
  "rsplit_ws s maxsplit = rev (map rev (split_ws (rev s) maxsplit))"


text \<open>\<open>s.lstrip()\<close>, \<open>s.rstrip()\<close> and \<open>s.strip()\<close>.\<close>

definition lstrip :: "str \<Rightarrow> str" where
  "lstrip s = dropWhile isspace s"

definition rstrip :: "str \<Rightarrow> str" where
  "rstrip s = rev (dropWhile isspace (rev s))"

definition strip :: "str \<Rightarrow> str" where
  "strip s = lstrip (rstrip s)"

text \<open>
  The number of tokens, counted in one pass: a token begins at every non-blank character
  that is the first character or follows a blank one. \<open>in_word\<close> says that the character
  before the list was not blank.
\<close>

fun wc :: "bool \<Rightarrow> str \<Rightarrow> nat" where
  "wc in_word [] = 0"
| "wc in_word (c # cs) =
     (if isspace c then wc False cs else (if in_word then 0 else 1) + wc True cs)"

lemma wc_True_le: "wc True s \<le> wc False s"
  by (cases s) auto

lemma wc_False_le: "wc False s \<le> Suc (wc True s)"
  by (cases s) auto

lemma wc_take: "wc b (take n s) \<le> wc b s"
proof (induction s arbitrary: n b)
  case Nil
  then show ?case by simp
next
  case (Cons c cs)
  then show ?case by (cases n) auto
qed

lemma wc_drop: "wc False (drop n s) \<le> wc False s"
proof (induction s arbitrary: n)
  case Nil
  then show ?case by simp
next
  case (Cons c cs)
  show ?case
  proof (cases n)
    case 0
    then show ?thesis by simp
  next
    case (Suc m)
    have "wc False (drop m cs) \<le> wc False cs" by (rule Cons.IH)
    also have "\<dots> \<le> wc False (c # cs)" using wc_False_le[of cs] by simp
    finally show ?thesis using Suc by simp
  qed
qed

lemma wc_spaces: "\<forall>c\<in>set sp. isspace c \<Longrightarrow> wc False (sp @ t) = wc False t"
  by (induction sp) auto

lemma wc_all_spaces: "\<forall>c\<in>set sp. isspace c \<Longrightarrow> wc b sp = 0"
  by (induction sp arbitrary: b) auto

lemma wc_word: "\<forall>c\<in>set w. \<not> isspace c \<Longrightarrow> wc True (w @ t) = wc True t"
  by (induction w) auto

lemma wc_dropWhile_space: "wc False (dropWhile isspace s) = wc False s"
  by (induction s) auto

lemma wc_dropWhile_word: "wc False (dropWhile (\<lambda>c. \<not> isspace c) s) = wc True s"
  by (induction s) auto

lemma wc_hd: "wc False s = wc True s + (if s \<noteq> [] \<and> \<not> isspace (hd s) then 1 else 0)"
  by (cases s) auto

lemma wc_snoc:
  "wc b (s @ [c]) = wc b s +
     (if isspace c then 0 else if (if s = [] then b else \<not> isspace (last s)) then 0 else 1)"
  by (induction s arbitrary: b) auto

lemma wc_rev: "wc False (rev s) = wc False s"
proof (induction s)
  case Nil
  then show ?case by simp
next
  case (Cons c cs)
  have "wc False (rev (c # cs)) = wc False (rev cs @ [c])" by simp
  also have "\<dots> = wc False (rev cs) +
     (if isspace c then 0 else if (if rev cs = [] then False else \<not> isspace (last (rev cs))) then 0 else 1)"
    by (rule wc_snoc)
  also have "\<dots> = wc False cs +
     (if isspace c then 0 else if cs \<noteq> [] \<and> \<not> isspace (hd cs) then 0 else 1)"
    using Cons.IH by (simp add: last_rev)
  also have "\<dots> = wc False (c # cs)"
    using wc_hd[of cs] by simp
  finally show ?case .
qed


lemma split_ws_empty: "dropWhile isspace s = [] \<Longrightarrow> split_ws s m = []"
  by (simp add: split_ws.simps[of s])

lemma split_ws_zero:
  "dropWhile isspace s \<noteq> [] \<Longrightarrow> split_ws s (Some 0) = [dropWhile isspace s]"
  by (simp add: split_ws.simps[of s] Let_def)

lemma split_ws_step:
  "dropWhile isspace s \<noteq> [] \<Longrightarrow> m \<noteq> Some 0 \<Longrightarrow>
     split_ws s m = takeWhile (\<lambda>c. \<not> isspace c) (dropWhile isspace s)
       # split_ws (dropWhile (\<lambda>c. \<not> isspace c) (dropWhile isspace s)) (map_option (\<lambda>k. k - 1) m)"
  by (simp add: split_ws.simps[of s] Let_def)

lemma wc_first_word:
  assumes "dropWhile isspace s \<noteq> []"
  shows "wc False s = Suc (wc False (dropWhile (\<lambda>c. \<not> isspace c) (dropWhile isspace s)))"
proof -
  obtain x xs where r: "dropWhile isspace s = x # xs"
    using assms by (cases "dropWhile isspace s") auto
  then have x: "\<not> isspace x" using hd_dropWhile[of isspace s] by auto
  have "wc False s = wc False (x # xs)" using wc_dropWhile_space[of s] r by simp
  also have "\<dots> = Suc (wc True xs)" using x by simp
  also have "wc True xs = wc False (dropWhile (\<lambda>c. \<not> isspace c) xs)"
    by (rule wc_dropWhile_word[symmetric])
  finally show ?thesis using r x by simp
qed

lemma wc_no_word:
  assumes "dropWhile isspace s = []"
  shows "wc False s = 0"
  using wc_dropWhile_space[of s] assms by simp

lemma length_split_ws_None: "length (split_ws s None) = wc False s"
proof (induction "length s" arbitrary: s rule: less_induct)
  case less
  show ?case
  proof (cases "dropWhile isspace s = []")
    case True
    then show ?thesis by (simp add: split_ws_empty wc_no_word)
  next
    case False
    from less[OF dropWhile_nonspace_shorter[OF False]] show ?thesis
      by (simp add: split_ws_step[OF False] wc_first_word[OF False])
  qed
qed

lemma split_ws_few:
  "length (split_ws s (Some k)) \<le> k \<Longrightarrow> wc False s \<le> k"
proof (induction k arbitrary: s)
  case 0
  then have "dropWhile isspace s = []"
    by (cases "dropWhile isspace s = []") (simp_all add: split_ws_zero)
  then show ?case by (simp add: wc_no_word)
next
  case (Suc k)
  show ?case
  proof (cases "dropWhile isspace s = []")
    case True
    then show ?thesis by (simp add: wc_no_word)
  next
    case False
    from Suc.prems have
      "length (split_ws (dropWhile (\<lambda>c. \<not> isspace c) (dropWhile isspace s)) (Some k)) \<le> k"
      by (simp add: split_ws_step[OF False])
    from Suc.IH[OF this] show ?thesis by (simp add: wc_first_word[OF False])
  qed
qed

lemma split_ws_bit_length: "x \<in> set (split_ws s m) \<Longrightarrow> length x \<le> length s"
proof (induction "length s" arbitrary: s m rule: less_induct)
  case less
  let ?r = "dropWhile isspace s"
  have rl: "length ?r \<le> length s" by (rule length_dropWhile_le)
  show ?case
  proof (cases "?r = []")
    case True
    with less.prems show ?thesis by (simp add: split_ws_empty)
  next
    case False
    show ?thesis
    proof (cases "m = Some 0")
      case True
      with less.prems False rl show ?thesis by (simp add: split_ws_zero)
    next
      case m: False
      from less.prems consider "x = takeWhile (\<lambda>c. \<not> isspace c) ?r"
        | "x \<in> set (split_ws (dropWhile (\<lambda>c. \<not> isspace c) ?r) (map_option (\<lambda>k. k - 1) m))"
        by (auto simp: split_ws_step[OF False m])
      then show ?thesis
      proof cases
        case 1
        have "length (takeWhile (\<lambda>c. \<not> isspace c) ?r) \<le> length ?r"
          by (rule length_takeWhile_le)
        with 1 rl show ?thesis by simp
      next
        case 2
        from less.hyps[OF dropWhile_nonspace_shorter[OF False] 2]
          dropWhile_nonspace_shorter[OF False]
        show ?thesis by simp
      qed
    qed
  qed
qed

lemma split_ws_many:
  "k < length (split_ws s (Some k)) \<Longrightarrow>
     wc False (take (length s - length (last (split_ws s (Some k)))) s) \<le> k"
proof (induction k arbitrary: s)
  case 0
  then have r: "dropWhile isspace s \<noteq> []"
    by (cases "dropWhile isspace s = []") (simp_all add: split_ws_empty)
  have "length s = length (takeWhile isspace s) + length (dropWhile isspace s)"
    by (metis length_append takeWhile_dropWhile_id)
  then have "length s - length (dropWhile isspace s) = length (takeWhile isspace s)"
    by arith
  then have "take (length s - length (dropWhile isspace s)) s = takeWhile isspace s"
    using takeWhile_eq_take[of isspace s] by (simp only:)
  moreover have "wc False (takeWhile isspace s) = 0"
    by (rule wc_all_spaces) (auto dest: set_takeWhileD)
  ultimately show ?case by (simp add: split_ws_zero[OF r])
next
  case (Suc k)
  let ?sp = "takeWhile isspace s"
  let ?r = "dropWhile isspace s"
  let ?w = "takeWhile (\<lambda>c. \<not> isspace c) ?r"
  let ?rest = "dropWhile (\<lambda>c. \<not> isspace c) ?r"
  let ?bits = "split_ws ?rest (Some k)"
  from Suc.prems have r: "?r \<noteq> []"
    by (cases "?r = []") (simp_all add: split_ws_empty)
  have step: "split_ws s (Some (Suc k)) = ?w # ?bits"
    by (simp add: split_ws_step[OF r])
  with Suc.prems have many: "k < length ?bits" by simp
  then have ne: "?bits \<noteq> []" by auto
  let ?l = "last ?bits"
  have l_le: "length ?l \<le> length ?rest"
    by (rule split_ws_bit_length[of _ _ "Some k"]) (simp add: ne)
  have ih: "wc False (take (length ?rest - length ?l) ?rest) \<le> k"
    by (rule Suc.IH[OF many])
  have s: "?sp @ ?w @ ?rest = s" by simp
  have "length (?sp @ ?w @ ?rest) = length ?sp + length ?w + length ?rest"
    by (simp only: length_append add.assoc)
  then have len: "length s = length ?sp + length ?w + length ?rest"
    by (simp only: s)
  have "length s - length ?l = length ?sp + length ?w + (length ?rest - length ?l)"
    using len l_le by arith
  then have "take (length s - length ?l) s
          = take (length ?sp + length ?w + (length ?rest - length ?l)) (?sp @ ?w @ ?rest)"
    by (simp only: s)
  also have "\<dots> = ?sp @ ?w @ take (length ?rest - length ?l) ?rest"
    by (simp only: take_append length_append) simp
  finally have t: "take (length s - length ?l) s = ?sp @ ?w @ take (length ?rest - length ?l) ?rest" .
  obtain x xs where rx: "?r = x # xs" using r by (cases ?r) auto
  then have x: "\<not> isspace x" using hd_dropWhile[of isspace s] by auto
  with rx have w: "?w = x # takeWhile (\<lambda>c. \<not> isspace c) xs" by simp
  have "wc False (?sp @ ?w @ take (length ?rest - length ?l) ?rest)
          = wc False (?w @ take (length ?rest - length ?l) ?rest)"
    by (rule wc_spaces) (auto dest: set_takeWhileD)
  also have "\<dots> = Suc (wc True (takeWhile (\<lambda>c. \<not> isspace c) xs @ take (length ?rest - length ?l) ?rest))"
    unfolding w using x by simp
  also have "wc True (takeWhile (\<lambda>c. \<not> isspace c) xs @ take (length ?rest - length ?l) ?rest)
          = wc True (take (length ?rest - length ?l) ?rest)"
    by (rule wc_word) (auto dest: set_takeWhileD)
  finally have "wc False (take (length s - length ?l) s)
          = Suc (wc True (take (length ?rest - length ?l) ?rest))"
    unfolding t .
  moreover have "wc True (take (length ?rest - length ?l) ?rest)
          \<le> wc False (take (length ?rest - length ?l) ?rest)"
    by (rule wc_True_le)
  moreover have "last (split_ws s (Some (Suc k))) = ?l"
    unfolding step using ne by simp
  ultimately show ?case using ih by simp
qed


section \<open>The context windows: \<open>_find_inline_exprs\<close>\<close>

text \<open>
  An entry of the list \<open>idxs\<close>: the before-window \<open>(before_idx, start)\<close>, the expression
  \<open>(expr_start, expr_end)\<close> and the after-window \<open>(end, after_idx)\<close>, each a pair of indices
  into the text.
\<close>

type_synonym idx = "(nat \<times> nat) \<times> (nat \<times> nat) \<times> (nat \<times> nat)"

text \<open>The four indices of the two windows of an entry.\<close>

definition before_idx_of :: "idx \<Rightarrow> nat" where
  "before_idx_of x = fst (fst x)"

definition start_of :: "idx \<Rightarrow> nat" where
  "start_of x = snd (fst x)"

definition end_of :: "idx \<Rightarrow> nat" where
  "end_of x = fst (snd (snd x))"

definition after_idx_of :: "idx \<Rightarrow> nat" where
  "after_idx_of x = snd (snd (snd x))"

text \<open>
  The body of the first loop, for one candidate. \<open>max(0, start - max_context_len)\<close> is an
  integer subtraction. \<open>before_bits[0]\<close> and \<open>after_bits[-1]\<close> are read only when the list
  has more than \<open>context_before\<close> (\<open>context_after\<close>) elements, so it is not empty there.
  The three parameters are natural numbers: the source's defaults are 5, 2 and 128 and no
  caller passes others.
\<close>

definition context_idxs :: "str \<Rightarrow> nat \<Rightarrow> nat \<Rightarrow> nat \<Rightarrow> candidate \<Rightarrow> idx" where
  "context_idxs content context_before context_after max_context_len c =
     (case c of (start, expr_start, expr_end, end_idx) \<Rightarrow>
        let content_len = length content;
            before_idx = nat (max 0 (int start - int max_context_len));
            before_fragment = slice content before_idx start;
            before_bits = rsplit_ws before_fragment (Some context_before);
            before_idx = (if length before_bits > context_before
                          then before_idx + length (hd before_bits) else before_idx);
            after_idx = min content_len (end_idx + max_context_len);
            after_fragment = slice content end_idx after_idx;
            after_bits = split_ws after_fragment (Some context_after);
            after_idx = (if length after_bits > context_after
                         then after_idx - length (last after_bits) else after_idx)
        in ((before_idx, start), (expr_start, expr_end), (end_idx, after_idx)))"

definition all_idxs :: "str \<Rightarrow> nat \<Rightarrow> nat \<Rightarrow> nat \<Rightarrow> idx list" where
  "all_idxs content context_before context_after max_context_len =
     map (context_idxs content context_before context_after max_context_len)
       (find_roll_expr_indices content)"

text \<open>
  The loop under \<open># start boundaries\<close>. It runs over \<open>enumerate(idxs[1:], start=1)\<close>, a
  copy of the list taken before the loop, and writes the list \<open>idxs\<close> itself; the previous
  entry is read from the list as it is then: \<open>idxs[i - 1][2][0]\<close> is the first index of
  its after-window, the end of the previous candidate's closing delimiter.
\<close>

fun start_boundaries_loop :: "(nat \<times> idx) list \<Rightarrow> idx list \<Rightarrow> idx list" where
  "start_boundaries_loop [] idxs = idxs"
| "start_boundaries_loop
     ((i, ((before_idx, start), (expr_start, expr_end), (end_idx, after_idx))) # rest) idxs =
     (let clamped_before_idx = max before_idx (fst (snd (snd (idxs ! (i - 1)))))
      in start_boundaries_loop rest
           (idxs[i := ((clamped_before_idx, start), (expr_start, expr_end), (end_idx, after_idx))]))"

definition start_boundaries :: "idx list \<Rightarrow> idx list" where
  "start_boundaries idxs = start_boundaries_loop (enumerate 1 (drop 1 idxs)) idxs"

text \<open>
  The loop under \<open># end boundaries\<close>, over \<open>enumerate(idxs[:-1])\<close>: \<open>idxs[i + 1][0][0]\<close> is
  the first index of the next entry's before-window, as the first loop left it.
\<close>

fun end_boundaries_loop :: "(nat \<times> idx) list \<Rightarrow> idx list \<Rightarrow> idx list" where
  "end_boundaries_loop [] idxs = idxs"
| "end_boundaries_loop
     ((i, ((before_idx, start), (expr_start, expr_end), (end_idx, after_idx))) # rest) idxs =
     (let clamped_after_idx = min after_idx (fst (fst (idxs ! (i + 1))))
      in end_boundaries_loop rest
           (idxs[i := ((before_idx, start), (expr_start, expr_end), (end_idx, clamped_after_idx))]))"

definition end_boundaries :: "idx list \<Rightarrow> idx list" where
  "end_boundaries idxs = end_boundaries_loop (enumerate 0 (butlast idxs)) idxs"

text \<open>The two clamping loops, in the order of the source.\<close>

definition clamp :: "idx list \<Rightarrow> idx list" where
  "clamp idxs = end_boundaries (start_boundaries idxs)"

definition clamped_idxs :: "str \<Rightarrow> nat \<Rightarrow> nat \<Rightarrow> nat \<Rightarrow> idx list" where
  "clamped_idxs content context_before context_after max_context_len =
     clamp (all_idxs content context_before context_after max_context_len)"

text \<open>
  The body of the last loop: the three texts of an entry, \<open>(expr, context_before,
  context_after)\<close>, with the ellipsis marker where a window does not reach the end of the
  text.
\<close>

definition expr_of :: "str \<Rightarrow> idx \<Rightarrow> str \<times> str \<times> str" where
  "expr_of content x =
     (case x of ((before_idx, start), (expr_start, expr_end), (end_idx, after_idx)) \<Rightarrow>
        let context_before = lstrip (slice content before_idx start);
            expr = strip (slice content expr_start expr_end);
            context_after = rstrip (slice content end_idx after_idx);
            context_before = (if before_idx > 0 then lit ''...'' @ context_before
                              else context_before);
            context_after = (if after_idx < length content then context_after @ lit ''...''
                             else context_after)
        in (expr, context_before, context_after))"

definition find_inline_exprs :: "str \<Rightarrow> nat \<Rightarrow> nat \<Rightarrow> nat \<Rightarrow> (str \<times> str \<times> str) list" where
  "find_inline_exprs content context_before context_after max_context_len =
     map (expr_of content) (clamped_idxs content context_before context_after max_context_len)"


subsection \<open>The two clamping loops, entry by entry\<close>

text \<open>
  What one step of each loop writes: the entry with its \<open>before_idx_of\<close> raised to at least
  \<open>p\<close>, and the entry with its \<open>after_idx_of\<close> lowered to at most \<open>q\<close>.
\<close>

definition clamp_before :: "idx \<Rightarrow> nat \<Rightarrow> idx" where
  "clamp_before x p = ((max (before_idx_of x) p, start_of x), snd x)"

definition clamp_after :: "idx \<Rightarrow> nat \<Rightarrow> idx" where
  "clamp_after x q = (fst x, fst (snd x), (end_of x, min (after_idx_of x) q))"

lemma idx_fields [simp]:
  "before_idx_of ((b, s), ex, (e, a)) = b"
  "start_of ((b, s), ex, (e, a)) = s"
  "end_of ((b, s), ex, (e, a)) = e"
  "after_idx_of ((b, s), ex, (e, a)) = a"
  by (simp_all add: before_idx_of_def start_of_def end_of_def after_idx_of_def)

lemma clamp_before_fields [simp]:
  "before_idx_of (clamp_before x p) = max (before_idx_of x) p"
  "start_of (clamp_before x p) = start_of x"
  "end_of (clamp_before x p) = end_of x"
  "after_idx_of (clamp_before x p) = after_idx_of x"
  "fst (snd (clamp_before x p)) = fst (snd x)"
  by (simp_all add: clamp_before_def before_idx_of_def start_of_def end_of_def after_idx_of_def)

lemma clamp_after_fields [simp]:
  "before_idx_of (clamp_after x q) = before_idx_of x"
  "start_of (clamp_after x q) = start_of x"
  "end_of (clamp_after x q) = end_of x"
  "after_idx_of (clamp_after x q) = min (after_idx_of x) q"
  "fst (snd (clamp_after x q)) = fst (snd x)"
  by (simp_all add: clamp_after_def before_idx_of_def start_of_def end_of_def after_idx_of_def)

lemma idx_eqI:
  "before_idx_of x = before_idx_of y \<Longrightarrow> start_of x = start_of y \<Longrightarrow> fst (snd x) = fst (snd y) \<Longrightarrow>
   end_of x = end_of y \<Longrightarrow> after_idx_of x = after_idx_of y \<Longrightarrow> x = y"
  by (cases x, cases y) (auto simp: before_idx_of_def start_of_def end_of_def after_idx_of_def)

lemma start_boundaries_loop_Cons:
  "start_boundaries_loop ((i, x) # rest) idxs
     = start_boundaries_loop rest (idxs[i := clamp_before x (end_of (idxs ! (i - 1)))])"
  by (cases x) (auto simp: clamp_before_def end_of_def Let_def before_idx_of_def start_of_def)

lemma end_boundaries_loop_Cons:
  "end_boundaries_loop ((i, x) # rest) idxs
     = end_boundaries_loop rest (idxs[i := clamp_after x (before_idx_of (idxs ! (i + 1)))])"
  by (cases x) (auto simp: clamp_after_def end_of_def Let_def before_idx_of_def after_idx_of_def)

lemma start_boundaries_loop_from:
  assumes "length L = length orig" and "0 < k" and "k \<le> length orig"
    and "\<forall>j<length orig. end_of (L ! j) = end_of (orig ! j)"
  shows "start_boundaries_loop (enumerate k (drop k orig)) L
           = take k L @ map (\<lambda>j. clamp_before (orig ! j) (end_of (orig ! (j - 1)))) [k ..< length orig]"
  using assms
proof (induction "length orig - k" arbitrary: k L)
  case 0
  then show ?case by simp
next
  case (Suc d)
  then have k: "k < length orig" by simp
  let ?new = "clamp_before (orig ! k) (end_of (orig ! (k - 1)))"
  let ?L = "L[k := ?new]"
  have prev: "end_of (L ! (k - 1)) = end_of (orig ! (k - 1))"
    using Suc.prems(4) k by simp
  have inv: "\<forall>j<length orig. end_of (?L ! j) = end_of (orig ! j)"
    using Suc.prems(1,4) k by (auto simp: nth_list_update)
  have "d = length orig - Suc k" using Suc.hyps(2) by simp
  from Suc.hyps(1)[OF this _ _ _ inv] Suc.prems(1) k
  have ih: "start_boundaries_loop (enumerate (Suc k) (drop (Suc k) orig)) ?L
      = take (Suc k) ?L @ map (\<lambda>j. clamp_before (orig ! j) (end_of (orig ! (j - 1)))) [Suc k ..< length orig]"
    by simp
  have "drop k orig = orig ! k # drop (Suc k) orig"
    using k by (simp add: Cons_nth_drop_Suc)
  then have "start_boundaries_loop (enumerate k (drop k orig)) L
      = start_boundaries_loop (enumerate (Suc k) (drop (Suc k) orig)) ?L"
    using prev by (simp add: start_boundaries_loop_Cons)
  also note ih
  also have "take (Suc k) ?L = take k L @ [?new]"
    using k Suc.prems(1) by (simp add: take_Suc_conv_app_nth)
  finally show ?case using k by (simp add: upt_conv_Cons)
qed

lemma start_boundaries_eq:
  "start_boundaries idxs
     = take 1 idxs @ map (\<lambda>j. clamp_before (idxs ! j) (end_of (idxs ! (j - 1)))) [1 ..< length idxs]"
proof (cases "idxs = []")
  case True
  then show ?thesis by (simp add: start_boundaries_def)
next
  case False
  then have "1 \<le> length idxs" by (cases idxs) auto
  then show ?thesis
    unfolding start_boundaries_def
    using start_boundaries_loop_from[of idxs idxs 1] by simp
qed

lemma length_start_boundaries [simp]: "length (start_boundaries idxs) = length idxs"
  by (auto simp: start_boundaries_eq min_def)

lemma start_boundaries_nth:
  assumes "i < length idxs"
  shows "start_boundaries idxs ! i
           = (if i = 0 then idxs ! 0 else clamp_before (idxs ! i) (end_of (idxs ! (i - 1))))"
proof (cases i)
  case 0
  with assms show ?thesis by (cases idxs) (simp_all add: start_boundaries_eq)
next
  case (Suc m)
  let ?f = "\<lambda>j. clamp_before (idxs ! j) (end_of (idxs ! (j - 1)))"
  from Suc assms have "idxs \<noteq> []" by auto
  then have l: "length (take 1 idxs) = 1" by (cases idxs) auto
  from Suc assms have m: "m < length [1 ..< length idxs]" by simp
  have u: "[1 ..< length idxs] ! m = Suc m"
    using Suc assms nth_upt[of 1 m "length idxs"] by simp
  have "start_boundaries idxs ! i = map ?f [1 ..< length idxs] ! m"
    unfolding start_boundaries_eq using l Suc by (simp add: nth_append)
  also have "\<dots> = ?f ([1 ..< length idxs] ! m)" by (rule nth_map[OF m])
  also have "\<dots> = ?f (Suc m)" by (simp only: u)
  finally show ?thesis using Suc by simp
qed


lemma end_boundaries_loop_from:
  assumes "length L = length orig" and "k \<le> length orig - 1"
    and "\<forall>j<length orig. before_idx_of (L ! j) = before_idx_of (orig ! j)"
  shows "end_boundaries_loop (enumerate k (drop k (butlast orig))) L
           = take k L @ map (\<lambda>j. clamp_after (orig ! j) (before_idx_of (orig ! Suc j)))
                          [k ..< length orig - 1]
               @ drop (length orig - 1) L"
  using assms
proof (induction "length orig - 1 - k" arbitrary: k L)
  case 0
  then have "k = length orig - 1" by simp
  then show ?case by simp
next
  case (Suc d)
  then have k: "Suc k < length orig" by simp
  let ?new = "clamp_after (orig ! k) (before_idx_of (orig ! Suc k))"
  let ?L = "L[k := ?new]"
  have nxt: "before_idx_of (L ! Suc k) = before_idx_of (orig ! Suc k)"
    using Suc.prems(3) k by simp
  have inv: "\<forall>j<length orig. before_idx_of (?L ! j) = before_idx_of (orig ! j)"
    using Suc.prems(1,3) k by (auto simp: nth_list_update)
  have d: "d = length orig - 1 - Suc k" using Suc.hyps(2) by simp
  have k': "Suc k \<le> length orig - 1" using k by simp
  have len: "length ?L = length orig" using Suc.prems(1) by simp
  have ih: "end_boundaries_loop (enumerate (Suc k) (drop (Suc k) (butlast orig))) ?L
      = take (Suc k) ?L @ map (\<lambda>j. clamp_after (orig ! j) (before_idx_of (orig ! Suc j)))
                            [Suc k ..< length orig - 1]
          @ drop (length orig - 1) ?L"
    by (rule Suc.hyps(1)[OF d len k' inv])
  have "k < length (butlast orig)" using k by simp
  then have "drop k (butlast orig) = butlast orig ! k # drop (Suc k) (butlast orig)"
    by (simp add: Cons_nth_drop_Suc)
  moreover have "butlast orig ! k = orig ! k"
    using k by (simp add: nth_butlast)
  ultimately have "end_boundaries_loop (enumerate k (drop k (butlast orig))) L
      = end_boundaries_loop (enumerate (Suc k) (drop (Suc k) (butlast orig))) ?L"
    using nxt by (simp add: end_boundaries_loop_Cons)
  also note ih
  also have "take (Suc k) ?L = take k L @ [?new]"
    using k Suc.prems(1) by (simp add: take_Suc_conv_app_nth)
  also have "drop (length orig - 1) ?L = drop (length orig - 1) L"
    using k by simp
  finally show ?case using k by (simp add: upt_conv_Cons)
qed

lemma end_boundaries_eq:
  "end_boundaries idxs
     = map (\<lambda>j. clamp_after (idxs ! j) (before_idx_of (idxs ! Suc j))) [0 ..< length idxs - 1]
         @ drop (length idxs - 1) idxs"
  unfolding end_boundaries_def
  using end_boundaries_loop_from[of idxs idxs 0] by simp

lemma length_end_boundaries [simp]: "length (end_boundaries idxs) = length idxs"
  by (auto simp: end_boundaries_eq)

lemma end_boundaries_nth:
  assumes "i < length idxs"
  shows "end_boundaries idxs ! i
           = (if Suc i < length idxs then clamp_after (idxs ! i) (before_idx_of (idxs ! Suc i))
              else idxs ! i)"
proof (cases "Suc i < length idxs")
  case True
  then have "i < length [0 ..< length idxs - 1]" by simp
  with True show ?thesis
    by (simp add: end_boundaries_eq nth_append)
next
  case False
  with assms have i: "i = length idxs - 1" by simp
  with assms False show ?thesis
    by (simp add: end_boundaries_eq nth_append)
qed

lemma length_clamp [simp]: "length (clamp idxs) = length idxs"
  by (simp add: clamp_def)

lemma clamp_nth_fields:
  assumes "i < length idxs"
  shows "before_idx_of (clamp idxs ! i)
           = (if i = 0 then before_idx_of (idxs ! 0)
              else max (before_idx_of (idxs ! i)) (end_of (idxs ! (i - 1))))"
    and "start_of (clamp idxs ! i) = start_of (idxs ! i)"
    and "fst (snd (clamp idxs ! i)) = fst (snd (idxs ! i))"
    and "end_of (clamp idxs ! i) = end_of (idxs ! i)"
    and "after_idx_of (clamp idxs ! i)
           = (if Suc i < length idxs
              then min (after_idx_of (idxs ! i))
                     (max (before_idx_of (idxs ! Suc i)) (end_of (idxs ! i)))
              else after_idx_of (idxs ! i))"
  using assms
  by (auto simp: clamp_def end_boundaries_nth start_boundaries_nth)

lemma clamp_idem: "clamp (clamp idxs) = clamp idxs"
proof (rule nth_equalityI)
  show "length (clamp (clamp idxs)) = length (clamp idxs)" by simp
next
  fix i assume "i < length (clamp (clamp idxs))"
  then have i: "i < length idxs" by simp
  then have i': "i < length (clamp idxs)" by simp
  show "clamp (clamp idxs) ! i = clamp idxs ! i"
  proof (rule idx_eqI)
    show "before_idx_of (clamp (clamp idxs) ! i) = before_idx_of (clamp idxs ! i)"
      using i by (auto simp: clamp_nth_fields[OF i'] clamp_nth_fields)
    show "start_of (clamp (clamp idxs) ! i) = start_of (clamp idxs ! i)"
      by (simp add: clamp_nth_fields[OF i'])
    show "fst (snd (clamp (clamp idxs) ! i)) = fst (snd (clamp idxs ! i))"
      by (simp add: clamp_nth_fields[OF i'])
    show "end_of (clamp (clamp idxs) ! i) = end_of (clamp idxs ! i)"
      by (simp add: clamp_nth_fields[OF i'])
    show "after_idx_of (clamp (clamp idxs) ! i) = after_idx_of (clamp idxs ! i)"
      using i by (auto simp: clamp_nth_fields[OF i'] clamp_nth_fields)
  qed
qed


subsection \<open>A text with two adjacent expressions\<close>

text \<open>
  Equations that evaluate \<open>split_ws\<close> on a string written out, character by character.
\<close>

lemma split_ws_Nil: "split_ws [] m = []"
  by (simp add: split_ws_empty)

lemma split_ws_Cons:
  "split_ws (c # cs) m =
     (if isspace c then split_ws cs m
      else if m = Some 0 then [c # cs]
      else (c # takeWhile (\<lambda>c. \<not> isspace c) cs)
             # split_ws (dropWhile (\<lambda>c. \<not> isspace c) cs) (map_option (\<lambda>k. k - 1) m))"
  by (simp add: split_ws.simps[of "c # cs"] split_ws.simps[of cs] Let_def)

text \<open>
  The text \<open>[[a]] x [[b]]\<close>: two candidates, three characters apart. Before the clamping
  loops the after-window of the first runs to the end of the text (index 13) and the
  before-window of the second begins at index 0.
\<close>

lemma two_exprs_candidates:
  "find_roll_expr_indices (lit ''[[a]] x [[b]]'') = [(0, 2, 3, 5), (8, 10, 11, 13)]"
  by code_simp

lemma two_exprs_all_idxs:
  "all_idxs (lit ''[[a]] x [[b]]'') 5 2 128
     = [((0, 0), (2, 3), (5, 13)), ((0, 8), (10, 11), (13, 13))]"
  unfolding all_idxs_def two_exprs_candidates
  by (simp add: context_idxs_def slice_def lit_def rsplit_ws_def split_ws_Nil split_ws_Cons
      isspace_def Let_def)

lemma two_exprs_start_boundaries:
  "start_boundaries [((0, 0), (2, 3), (5, 13)), ((0, 8), (10, 11), (13, 13))]
     = [((0, 0), (2, 3), (5, 13)), ((5, 8), (10, 11), (13, 13))]"
  by (simp add: start_boundaries_def enumerate_eq_zip numeral_2_eq_2)

lemma two_exprs_end_boundaries:
  "end_boundaries [((0, 0), (2, 3), (5, 13)), ((5, 8), (10, 11), (13, 13))]
     = [((0, 0), (2, 3), (5, 5)), ((5, 8), (10, 11), (13, 13))]"
  by (simp add: end_boundaries_def enumerate_eq_zip)

lemma two_exprs_clamped_idxs:
  "clamped_idxs (lit ''[[a]] x [[b]]'') 5 2 128
     = [((0, 0), (2, 3), (5, 5)), ((5, 8), (10, 11), (13, 13))]"
  unfolding clamped_idxs_def clamp_def two_exprs_all_idxs two_exprs_start_boundaries
    two_exprs_end_boundaries ..

text \<open>
  A message with more words around its two expressions than the windows take:
  \<open>p q r s t u v [[1d20]] one two three four five six seven eight [[2d6]] x y z\<close>.
\<close>

definition sample_text :: str where
  "sample_text =
     lit ''p q r s t u v [[1d20]] one two three four five six seven eight [[2d6]] x y z''"

lemma sample_candidates:
  "find_roll_expr_indices sample_text = [(14, 16, 20, 22), (63, 65, 68, 70)]"
  unfolding sample_text_def by code_simp

lemma sample_all_idxs:
  "all_idxs sample_text 5 2 128
     = [((3, 14), (16, 20), (22, 31)), ((36, 63), (65, 68), (70, 75))]"
  unfolding all_idxs_def sample_candidates
  by (simp add: sample_text_def context_idxs_def slice_def lit_def rsplit_ws_def split_ws_Nil
      split_ws_Cons isspace_def Let_def)

lemma sample_clamped_idxs:
  "clamped_idxs sample_text 5 2 128
     = [((3, 14), (16, 20), (22, 31)), ((36, 63), (65, 68), (70, 75))]"
  unfolding clamped_idxs_def clamp_def sample_all_idxs
  by (simp add: start_boundaries_def end_boundaries_def enumerate_eq_zip numeral_2_eq_2)

lemma sample_exprs:
  "find_inline_exprs sample_text 5 2 128
     = [(lit ''1d20'', lit ''...r s t u v '', lit '' one two...''),
        (lit ''2d6'', lit ''...four five six seven eight '', lit '' x y...'')]"
  unfolding find_inline_exprs_def sample_clamped_idxs
  by (simp add: sample_text_def expr_of_def slice_def lit_def lstrip_def rstrip_def strip_def
      isspace_def)

subsection \<open>The forward pass\<close>

text \<open>
  Claim C2, as the code has it. In the loop under \<open># start boundaries\<close>, for every entry
  after the first, \<open>before_idx\<close> becomes the maximum of its value and the first index of the
  previous entry's after-window, which is the end of the previous candidate's closing
  delimiter (\<open>idxs[i - 1][2][0]\<close>); the other indices of the entry stay as they were.
\<close>

theorem start_boundaries_previous_end:
  assumes "0 < i" and "i < length idxs"
  shows "before_idx_of (start_boundaries idxs ! i)
           = max (before_idx_of (idxs ! i)) (end_of (idxs ! (i - 1)))
         \<and> start_of (start_boundaries idxs ! i) = start_of (idxs ! i)
         \<and> fst (snd (start_boundaries idxs ! i)) = fst (snd (idxs ! i))
         \<and> end_of (start_boundaries idxs ! i) = end_of (idxs ! i)
         \<and> after_idx_of (start_boundaries idxs ! i) = after_idx_of (idxs ! i)"
  using assms by (simp add: start_boundaries_nth)

theorem start_boundaries_previous_end_witness:
  "(0::nat) < 1
   \<and> (1::nat) < length [((0, 0), (2, 3), (5, 13)), ((0, 8), (10, 11), (13, 13)) :: idx]
   \<and> before_idx_of (start_boundaries
         [((0, 0), (2, 3), (5, 13)), ((0, 8), (10, 11), (13, 13))] ! 1) = 5
   \<and> after_idx_of (start_boundaries
         [((0, 0), (2, 3), (5, 13)), ((0, 8), (10, 11), (13, 13))] ! 1) = 13"
  using start_boundaries_previous_end
    [of 1 "[((0, 0), (2, 3), (5, 13)), ((0, 8), (10, 11), (13, 13))]"]
  by simp

text \<open>
  The claim as written takes the maximum with the end of the previous entry's
  after-window. For \<open>[[a]] x [[b]]\<close> that end is 13 and the maximum would be 13; the loop
  writes 5, the end of \<open>[[a]]\<close>.
\<close>

theorem start_boundaries_not_previous_after_idx:
  "all_idxs (lit ''[[a]] x [[b]]'') 5 2 128
     = [((0, 0), (2, 3), (5, 13)), ((0, 8), (10, 11), (13, 13))]
   \<and> before_idx_of (start_boundaries (all_idxs (lit ''[[a]] x [[b]]'') 5 2 128) ! 1) = 5
   \<and> max (before_idx_of (all_idxs (lit ''[[a]] x [[b]]'') 5 2 128 ! 1))
         (after_idx_of (all_idxs (lit ''[[a]] x [[b]]'') 5 2 128 ! 0)) = 13"
  unfolding two_exprs_all_idxs two_exprs_start_boundaries by simp

subsection \<open>Clamping twice\<close>

text \<open>
  Claim C9. The two clamping loops are idempotent: run a second time on the list they
  produced, the forward loop followed by the backward loop changes no index. This holds
  for every list of entries, and so for the list computed from any text.
\<close>

theorem clamp_idempotent:
  "clamp (clamp idxs) = clamp idxs
   \<and> clamp (clamped_idxs content context_before context_after max_context_len)
       = clamped_idxs content context_before context_after max_context_len"
  by (simp add: clamped_idxs_def clamp_idem)

theorem clamp_idempotent_witness:
  "clamp (clamped_idxs (lit ''[[a]] x [[b]]'') 5 2 128)
     = [((0, 0), (2, 3), (5, 5)), ((5, 8), (10, 11), (13, 13))]"
  using clamp_idempotent[of "[]" "lit ''[[a]] x [[b]]''" 5 2 128]
  by (simp add: two_exprs_clamped_idxs)


subsection \<open>The windows of two candidates never overlap\<close>

lemma disjoint_pairs_in_text:
  "disjoint_pairs content a ps \<Longrightarrow> \<forall>p\<in>set ps. snd p + 2 \<le> length content"
proof (induction ps arbitrary: a)
  case Nil
  then show ?case by simp
next
  case (Cons p ps)
  obtain opn cls where p: "p = (opn, cls)" by (cases p)
  from Cons.prems p have h: "take 2 (drop cls content) = lit '']]''"
      "disjoint_pairs content (cls + 2) ps"
    by simp_all
  from h(1) have "cls + 2 \<le> length content" by (simp add: close_at)
  with Cons.IH[OF h(2)] p show ?case by simp
qed

lemma candidate_ends:
  assumes "candidate_shape c"
  shows "fst (delims c) = fst c" and "snd (snd (snd c)) = snd (delims c) + 2"
  using assms by (cases c; simp)+

lemma candidates_ordered:
  assumes "cs = find_roll_expr_indices content"
  shows "\<And>i. i < length cs \<Longrightarrow> fst (cs ! i) \<le> snd (snd (snd (cs ! i)))"
    and "\<And>i. i < length cs \<Longrightarrow> snd (snd (snd (cs ! i))) \<le> length content"
    and "\<And>i j. i < j \<Longrightarrow> j < length cs \<Longrightarrow> snd (snd (snd (cs ! i))) \<le> fst (cs ! j)"
proof -
  have dp: "disjoint_pairs content 0 (map delims cs)"
    unfolding assms find_roll_expr_indices_def by (rule from_disjoint_pairs)
  have shape: "list_all candidate_shape cs"
    unfolding assms find_roll_expr_indices_def by (rule from_shape)
  have sh: "candidate_shape (cs ! i)" if "i < length cs" for i
    using shape that by (simp add: list_all_length)
  have ord: "sorted_wrt (\<lambda>p q. snd p + 2 \<le> fst q) (map delims cs)"
    using disjoint_pairs_ordered[OF dp] by blast
  have each: "fst p + 2 \<le> snd p" if "p \<in> set (map delims cs)" for p
    using disjoint_pairs_ordered[OF dp] that by blast
  have intext: "snd p + 2 \<le> length content" if "p \<in> set (map delims cs)" for p
    using disjoint_pairs_in_text[OF dp] that by blast
  show "fst (cs ! i) \<le> snd (snd (snd (cs ! i)))" if "i < length cs" for i
  proof -
    have "delims (cs ! i) \<in> set (map delims cs)" using that by simp
    from each[OF this] candidate_ends[OF sh[OF that]] show ?thesis by simp
  qed
  show "snd (snd (snd (cs ! i))) \<le> length content" if "i < length cs" for i
  proof -
    have "delims (cs ! i) \<in> set (map delims cs)" using that by simp
    from intext[OF this] candidate_ends[OF sh[OF that]] show ?thesis by simp
  qed
  show "snd (snd (snd (cs ! i))) \<le> fst (cs ! j)" if "i < j" "j < length cs" for i j
  proof -
    from that have i: "i < length cs" by simp
    from ord that have "snd (map delims cs ! i) + 2 \<le> fst (map delims cs ! j)"
      by (simp add: sorted_wrt_iff_nth_less)
    with that i candidate_ends[OF sh[OF i]] candidate_ends[OF sh[OF that(2)]]
    show ?thesis by simp
  qed
qed

lemma length_last_split_ws:
  "split_ws s m \<noteq> [] \<Longrightarrow> length (last (split_ws s m)) \<le> length s"
  by (rule split_ws_bit_length[of _ _ m]) simp

lemma context_idxs_fields:
  "start_of (context_idxs content cb ca mcl (start, es, ee, e)) = start"
  "end_of (context_idxs content cb ca mcl (start, es, ee, e)) = e"
  "fst (snd (context_idxs content cb ca mcl (start, es, ee, e))) = (es, ee)"
  by (simp_all add: context_idxs_def Let_def)

lemma trim_before_le:
  assumes "b0 \<le> start"
  shows "(if cb < length (rsplit_ws (slice content b0 start) (Some cb))
          then b0 + length (hd (rsplit_ws (slice content b0 start) (Some cb))) else b0) \<le> start"
proof (cases "cb < length (rsplit_ws (slice content b0 start) (Some cb))")
  case False
  with assms show ?thesis by simp
next
  case True
  let ?frag = "slice content b0 start"
  from True have ne: "split_ws (rev ?frag) (Some cb) \<noteq> []"
    by (auto simp: rsplit_ws_def)
  then have "hd (rsplit_ws ?frag (Some cb)) = rev (last (split_ws (rev ?frag) (Some cb)))"
    by (simp add: rsplit_ws_def hd_rev last_map)
  then have "length (hd (rsplit_ws ?frag (Some cb))) \<le> length (rev ?frag)"
    using length_last_split_ws[OF ne] by simp
  moreover have "length ?frag \<le> start - b0" by (simp add: slice_def)
  ultimately have "b0 + length (hd (rsplit_ws ?frag (Some cb))) \<le> start"
    using assms by simp
  with True show ?thesis by simp
qed

lemma trim_after_ge:
  assumes "e \<le> a0"
  shows "e \<le> (if ca < length (split_ws (slice content e a0) (Some ca))
               then a0 - length (last (split_ws (slice content e a0) (Some ca))) else a0)"
    and "(if ca < length (split_ws (slice content e a0) (Some ca))
          then a0 - length (last (split_ws (slice content e a0) (Some ca))) else a0) \<le> a0"
proof -
  let ?bits = "split_ws (slice content e a0) (Some ca)"
  have "e \<le> a0 - length (last ?bits)" if "ca < length ?bits"
  proof -
    from that have "?bits \<noteq> []" by auto
    from length_last_split_ws[OF this]
    have "length (last ?bits) \<le> length (slice content e a0)" .
    moreover have "length (slice content e a0) \<le> a0 - e" by (simp add: slice_def)
    ultimately show ?thesis using assms by simp
  qed
  with assms show "e \<le> (if ca < length ?bits then a0 - length (last ?bits) else a0)"
    by simp
  show "(if ca < length ?bits then a0 - length (last ?bits) else a0) \<le> a0"
    by simp
qed

lemma context_idxs_before:
  "before_idx_of (context_idxs content cb ca mcl (start, es, ee, e)) \<le> start"
proof -
  have "nat (max 0 (int start - int mcl)) \<le> start" by simp
  from trim_before_le[OF this, of cb content] show ?thesis
    by (simp add: context_idxs_def Let_def)
qed

lemma context_idxs_after:
  assumes "e \<le> length content"
  shows "e \<le> after_idx_of (context_idxs content cb ca mcl (start, es, ee, e))"
    and "after_idx_of (context_idxs content cb ca mcl (start, es, ee, e)) \<le> length content"
proof -
  have a0: "e \<le> min (length content) (e + mcl)" using assms by simp
  from trim_after_ge(1)[OF a0, of ca content]
  show "e \<le> after_idx_of (context_idxs content cb ca mcl (start, es, ee, e))"
    by (simp add: context_idxs_def Let_def)
  have "min (length content) (e + mcl) \<le> length content" by simp
  with trim_after_ge(2)[OF a0, of ca content]
  show "after_idx_of (context_idxs content cb ca mcl (start, es, ee, e)) \<le> length content"
    by (simp add: context_idxs_def Let_def)
qed

text \<open>What the clamping loops need of the list they are given.\<close>

definition ordered_idxs :: "idx list \<Rightarrow> bool" where
  "ordered_idxs idxs =
     ((\<forall>i<length idxs. before_idx_of (idxs ! i) \<le> start_of (idxs ! i)
          \<and> start_of (idxs ! i) \<le> end_of (idxs ! i)
          \<and> end_of (idxs ! i) \<le> after_idx_of (idxs ! i))
      \<and> (\<forall>i<length idxs. \<forall>j<length idxs. i < j \<longrightarrow> end_of (idxs ! i) \<le> start_of (idxs ! j)))"

lemma all_idxs_ordered: "ordered_idxs (all_idxs content cb ca mcl)"
proof -
  define cs where "cs = find_roll_expr_indices content"
  note co = candidates_ordered[OF cs_def]
  have n: "length (all_idxs content cb ca mcl) = length cs"
    by (simp add: all_idxs_def cs_def)
  have nth: "all_idxs content cb ca mcl ! i = context_idxs content cb ca mcl (cs ! i)"
    if "i < length cs" for i
    using that by (simp add: all_idxs_def cs_def)
  have f: "before_idx_of (context_idxs content cb ca mcl (cs ! i)) \<le> fst (cs ! i)"
      "start_of (context_idxs content cb ca mcl (cs ! i)) = fst (cs ! i)"
      "end_of (context_idxs content cb ca mcl (cs ! i)) = snd (snd (snd (cs ! i)))"
      "snd (snd (snd (cs ! i))) \<le> after_idx_of (context_idxs content cb ca mcl (cs ! i))"
    if "i < length cs" for i
  proof -
    obtain s es ee e where c: "cs ! i = (s, es, ee, e)" by (cases "cs ! i")
    from co(2)[OF that] c have "e \<le> length content" by simp
    from context_idxs_after(1)[OF this] c
    show "snd (snd (snd (cs ! i))) \<le> after_idx_of (context_idxs content cb ca mcl (cs ! i))"
      by simp
    show "before_idx_of (context_idxs content cb ca mcl (cs ! i)) \<le> fst (cs ! i)"
      using context_idxs_before[of content cb ca mcl s es ee e] c by simp
    show "start_of (context_idxs content cb ca mcl (cs ! i)) = fst (cs ! i)"
      using c by (simp add: context_idxs_fields)
    show "end_of (context_idxs content cb ca mcl (cs ! i)) = snd (snd (snd (cs ! i)))"
      using c by (simp add: context_idxs_fields)
  qed
  show ?thesis
    unfolding ordered_idxs_def n
    using co f by (auto simp: nth)
qed

lemma clamp_ordered_after_before:
  assumes "ordered_idxs idxs" and "i < j" and "j < length idxs"
  shows "after_idx_of (clamp idxs ! i) \<le> before_idx_of (clamp idxs ! j)"
proof -
  from assms have i: "i < length idxs" "Suc i < length idxs" by simp_all
  have a: "after_idx_of (clamp idxs ! i)
      = min (after_idx_of (idxs ! i)) (max (before_idx_of (idxs ! Suc i)) (end_of (idxs ! i)))"
    using i by (simp add: clamp_nth_fields)
  have b: "before_idx_of (clamp idxs ! j)
      = max (before_idx_of (idxs ! j)) (end_of (idxs ! (j - 1)))"
    using assms by (simp add: clamp_nth_fields)
  show ?thesis
  proof (cases "j = Suc i")
    case True
    with a b show ?thesis by simp
  next
    case False
    with assms have lt: "Suc i < j" by simp
    have 1: "before_idx_of (idxs ! Suc i) \<le> start_of (idxs ! Suc i)"
      using assms(1) i by (simp add: ordered_idxs_def)
    have 2: "end_of (idxs ! i) \<le> start_of (idxs ! Suc i)"
      using assms(1) i by (simp add: ordered_idxs_def)
    have 3: "start_of (idxs ! Suc i) \<le> end_of (idxs ! Suc i)"
      using assms(1) i by (simp add: ordered_idxs_def)
    have 4: "end_of (idxs ! Suc i) \<le> end_of (idxs ! (j - 1))"
    proof (cases "Suc i = j - 1")
      case True
      then show ?thesis by simp
    next
      case False
      with lt have l: "Suc i < j - 1" by arith
      from assms(3) have j1: "j - 1 < length idxs" by simp
      have "end_of (idxs ! Suc i) \<le> start_of (idxs ! (j - 1))"
        using assms(1) i(2) j1 l unfolding ordered_idxs_def by blast
      moreover have "start_of (idxs ! (j - 1)) \<le> end_of (idxs ! (j - 1))"
        using assms(1) j1 unfolding ordered_idxs_def by blast
      ultimately show ?thesis by simp
    qed
    from 1 2 3 4 show ?thesis unfolding a b by simp
  qed
qed

lemma clamp_ordered_window:
  assumes "ordered_idxs idxs" and "i < length idxs"
  shows "before_idx_of (clamp idxs ! i) \<le> start_of (clamp idxs ! i)"
    and "start_of (clamp idxs ! i) \<le> end_of (clamp idxs ! i)"
    and "end_of (clamp idxs ! i) \<le> after_idx_of (clamp idxs ! i)"
proof -
  from assms have h: "before_idx_of (idxs ! i) \<le> start_of (idxs ! i)"
      "start_of (idxs ! i) \<le> end_of (idxs ! i)" "end_of (idxs ! i) \<le> after_idx_of (idxs ! i)"
    by (simp_all add: ordered_idxs_def)
  have p: "end_of (idxs ! (i - 1)) \<le> start_of (idxs ! i)" if "0 < i"
    using assms that unfolding ordered_idxs_def
    by (metis diff_less less_imp_diff_less zero_less_one)
  show "before_idx_of (clamp idxs ! i) \<le> start_of (clamp idxs ! i)"
    using h p assms(2) by (auto simp: clamp_nth_fields)
  show "start_of (clamp idxs ! i) \<le> end_of (clamp idxs ! i)"
    using h assms(2) by (simp add: clamp_nth_fields)
  show "end_of (clamp idxs ! i) \<le> after_idx_of (clamp idxs ! i)"
    using h assms(2) by (simp add: clamp_nth_fields)
qed

text \<open>
  Claim C1. For every text, after the two clamping loops the context windows of any two
  distinct candidates are disjoint: no position of the text lies both in the after-window
  of one candidate and in the before-window of another. More than that, the whole spans
  of two candidates, from the start of the before-window to the end of the after-window,
  are disjoint, and each window lies inside its candidate's span (the before-window ends
  where the candidate starts, the after-window starts where the candidate ends).
\<close>

theorem context_windows_disjoint:
  assumes "ws = clamped_idxs content context_before context_after max_context_len"
    and "i < length ws" and "j < length ws" and "i \<noteq> j"
  shows "{end_of (ws ! i) ..< after_idx_of (ws ! i)}
           \<inter> {before_idx_of (ws ! j) ..< start_of (ws ! j)} = {}
         \<and> {before_idx_of (ws ! i) ..< after_idx_of (ws ! i)}
           \<inter> {before_idx_of (ws ! j) ..< after_idx_of (ws ! j)} = {}
         \<and> before_idx_of (ws ! i) \<le> start_of (ws ! i)
         \<and> start_of (ws ! i) \<le> end_of (ws ! i)
         \<and> end_of (ws ! i) \<le> after_idx_of (ws ! i)"
proof -
  let ?raw = "all_idxs content context_before context_after max_context_len"
  have ws: "ws = clamp ?raw" using assms(1) by (simp add: clamped_idxs_def)
  have ord: "ordered_idxs ?raw" by (rule all_idxs_ordered)
  from assms(2,3) ws have i: "i < length ?raw" and j: "j < length ?raw" by simp_all
  note wi = clamp_ordered_window[OF ord i, folded ws]
  note wj = clamp_ordered_window[OF ord j, folded ws]
  from assms(4) consider "i < j" | "j < i" by arith
  then have "after_idx_of (ws ! i) \<le> before_idx_of (ws ! j)
      \<or> after_idx_of (ws ! j) \<le> before_idx_of (ws ! i)"
  proof cases
    case 1
    from clamp_ordered_after_before[OF ord 1 j] show ?thesis by (simp add: ws)
  next
    case 2
    from clamp_ordered_after_before[OF ord 2 i] show ?thesis by (simp add: ws)
  qed
  with wi wj show ?thesis by auto
qed

text \<open>
  In the sample message the after-window of the first expression is \<open>22-31\<close> and the
  before-window of the second is \<open>36-63\<close>.
\<close>

theorem context_windows_disjoint_witness:
  "clamped_idxs sample_text 5 2 128
     = [((3, 14), (16, 20), (22, 31)), ((36, 63), (65, 68), (70, 75))]
   \<and> {end_of (clamped_idxs sample_text 5 2 128 ! 0)
        ..< after_idx_of (clamped_idxs sample_text 5 2 128 ! 0)} = {22 ..< 31}
   \<and> {before_idx_of (clamped_idxs sample_text 5 2 128 ! 1)
        ..< start_of (clamped_idxs sample_text 5 2 128 ! 1)} = {36 ..< 63}
   \<and> {end_of (clamped_idxs sample_text 5 2 128 ! 0)
        ..< after_idx_of (clamped_idxs sample_text 5 2 128 ! 0)}
       \<inter> {before_idx_of (clamped_idxs sample_text 5 2 128 ! 1)
            ..< start_of (clamped_idxs sample_text 5 2 128 ! 1)} = {}
   \<and> {before_idx_of (clamped_idxs sample_text 5 2 128 ! 0)
        ..< after_idx_of (clamped_idxs sample_text 5 2 128 ! 0)}
       \<inter> {before_idx_of (clamped_idxs sample_text 5 2 128 ! 1)
            ..< after_idx_of (clamped_idxs sample_text 5 2 128 ! 1)} = {}"
proof -
  have l: "(0::nat) < length (clamped_idxs sample_text 5 2 128)"
      "(1::nat) < length (clamped_idxs sample_text 5 2 128)"
    by (simp_all add: sample_clamped_idxs)
  have v: "end_of (clamped_idxs sample_text 5 2 128 ! 0) = 22"
      "after_idx_of (clamped_idxs sample_text 5 2 128 ! 0) = 31"
      "before_idx_of (clamped_idxs sample_text 5 2 128 ! 1) = 36"
      "start_of (clamped_idxs sample_text 5 2 128 ! 1) = 63"
    by (simp_all add: sample_clamped_idxs)
  from context_windows_disjoint[OF refl l] have
    "{end_of (clamped_idxs sample_text 5 2 128 ! 0)
        ..< after_idx_of (clamped_idxs sample_text 5 2 128 ! 0)}
       \<inter> {before_idx_of (clamped_idxs sample_text 5 2 128 ! 1)
            ..< start_of (clamped_idxs sample_text 5 2 128 ! 1)} = {}"
    "{before_idx_of (clamped_idxs sample_text 5 2 128 ! 0)
        ..< after_idx_of (clamped_idxs sample_text 5 2 128 ! 0)}
       \<inter> {before_idx_of (clamped_idxs sample_text 5 2 128 ! 1)
            ..< after_idx_of (clamped_idxs sample_text 5 2 128 ! 1)} = {}"
    by simp_all
  with v sample_clamped_idxs show ?thesis by (simp only: simp_thms)
qed

subsection \<open>The words of a context window\<close>

lemma slice_drop: "slice content (a + l) b = drop l (slice content a b)"
  by (simp add: slice_def drop_take add.commute)

lemma slice_from_later:
  "b \<le> b' \<Longrightarrow> slice content b' s = drop (b' - b) (slice content b s)"
  using slice_drop[of content b "b' - b" s] by simp

lemma slice_to_earlier:
  "a' \<le> a \<Longrightarrow> slice content e a' = take (a' - e) (slice content e a)"
  by (simp add: slice_def min_def)

lemma wc_lstrip: "wc False (lstrip s) = wc False s"
  by (simp add: lstrip_def wc_dropWhile_space)

lemma wc_rstrip: "wc False (rstrip s) = wc False s"
proof -
  have "wc False (rstrip s) = wc False (rev (rstrip s))" by (simp add: wc_rev)
  also have "\<dots> = wc False (dropWhile isspace (rev s))" by (simp add: rstrip_def)
  also have "\<dots> = wc False (rev s)" by (rule wc_dropWhile_space)
  finally show ?thesis by (simp add: wc_rev)
qed

lemma trim_before_tokens:
  "wc False (slice content
      (if cb < length (rsplit_ws (slice content b0 start) (Some cb))
       then b0 + length (hd (rsplit_ws (slice content b0 start) (Some cb))) else b0) start) \<le> cb"
proof (cases "cb < length (rsplit_ws (slice content b0 start) (Some cb))")
  case False
  then have "length (split_ws (rev (slice content b0 start)) (Some cb)) \<le> cb"
    by (simp add: rsplit_ws_def)
  from split_ws_few[OF this] False show ?thesis by (simp add: wc_rev)
next
  case True
  let ?frag = "slice content b0 start"
  let ?bits = "split_ws (rev ?frag) (Some cb)"
  from True have many: "cb < length ?bits" by (simp add: rsplit_ws_def)
  then have ne: "?bits \<noteq> []" by auto
  then have hd: "hd (rsplit_ws ?frag (Some cb)) = rev (last ?bits)"
    by (simp add: rsplit_ws_def hd_rev last_map)
  have "wc False (drop (length (last ?bits)) ?frag)
          = wc False (rev (drop (length (last ?bits)) ?frag))"
    by (simp add: wc_rev)
  also have "rev (drop (length (last ?bits)) ?frag)
          = take (length (rev ?frag) - length (last ?bits)) (rev ?frag)"
    by (simp add: rev_drop)
  also have "wc False \<dots> \<le> cb" by (rule split_ws_many[OF many])
  finally show ?thesis using True by (simp add: hd slice_drop)
qed

lemma trim_after_tokens:
  assumes "a0 \<le> length content"
  shows "wc False (slice content e
      (if ca < length (split_ws (slice content e a0) (Some ca))
       then a0 - length (last (split_ws (slice content e a0) (Some ca))) else a0)) \<le> ca"
proof (cases "ca < length (split_ws (slice content e a0) (Some ca))")
  case False
  then have "length (split_ws (slice content e a0) (Some ca)) \<le> ca" by simp
  from split_ws_few[OF this] False show ?thesis by simp
next
  case True
  let ?frag = "slice content e a0"
  let ?l = "length (last (split_ws ?frag (Some ca)))"
  have fl: "length ?frag = a0 - e" using assms by (simp add: slice_def)
  have "slice content e (a0 - ?l) = take (a0 - ?l - e) ?frag"
    by (rule slice_to_earlier) simp
  also have "a0 - ?l - e = length ?frag - ?l" using fl by simp
  finally have "slice content e (a0 - ?l) = take (length ?frag - ?l) ?frag" .
  with split_ws_many[OF True] True show ?thesis by simp
qed

lemma context_idxs_tokens:
  "wc False (slice content (before_idx_of (context_idxs content cb ca mcl c))
               (start_of (context_idxs content cb ca mcl c))) \<le> cb"
  "wc False (slice content (end_of (context_idxs content cb ca mcl c))
               (after_idx_of (context_idxs content cb ca mcl c))) \<le> ca"
proof -
  obtain s es ee e where c: "c = (s, es, ee, e)" by (cases c)
  show "wc False (slice content (before_idx_of (context_idxs content cb ca mcl c))
               (start_of (context_idxs content cb ca mcl c))) \<le> cb"
    using trim_before_tokens[where cb=cb and content=content
        and ?b0.0="nat (max 0 (int s - int mcl))" and start=s]
    by (simp add: c context_idxs_def Let_def)
  have "min (length content) (e + mcl) \<le> length content" by simp
  from trim_after_tokens[OF this, where ca=ca and e=e]
  show "wc False (slice content (end_of (context_idxs content cb ca mcl c))
               (after_idx_of (context_idxs content cb ca mcl c))) \<le> ca"
    by (simp add: c context_idxs_def Let_def)
qed

lemma clamped_idxs_tokens:
  assumes "i < length (clamped_idxs content cb ca mcl)"
  shows "wc False (slice content (before_idx_of (clamped_idxs content cb ca mcl ! i))
               (start_of (clamped_idxs content cb ca mcl ! i))) \<le> cb"
    and "wc False (slice content (end_of (clamped_idxs content cb ca mcl ! i))
               (after_idx_of (clamped_idxs content cb ca mcl ! i))) \<le> ca"
proof -
  let ?raw = "all_idxs content cb ca mcl"
  from assms have i: "i < length ?raw" by (simp add: clamped_idxs_def)
  have raw: "?raw ! i = context_idxs content cb ca mcl (find_roll_expr_indices content ! i)"
    using i by (simp add: all_idxs_def)
  have b: "before_idx_of (?raw ! i) \<le> before_idx_of (clamp ?raw ! i)"
    using i by (simp add: clamp_nth_fields)
  have a: "after_idx_of (clamp ?raw ! i) \<le> after_idx_of (?raw ! i)"
    using i by (simp add: clamp_nth_fields)
  have "wc False (slice content (before_idx_of (clamp ?raw ! i)) (start_of (?raw ! i)))
          \<le> wc False (slice content (before_idx_of (?raw ! i)) (start_of (?raw ! i)))"
    unfolding slice_from_later[OF b] by (rule wc_drop)
  also have "\<dots> \<le> cb" unfolding raw by (rule context_idxs_tokens)
  finally show "wc False (slice content (before_idx_of (clamped_idxs content cb ca mcl ! i))
               (start_of (clamped_idxs content cb ca mcl ! i))) \<le> cb"
    using i by (simp add: clamped_idxs_def clamp_nth_fields)
  have "wc False (slice content (end_of (?raw ! i)) (after_idx_of (clamp ?raw ! i)))
          \<le> wc False (slice content (end_of (?raw ! i)) (after_idx_of (?raw ! i)))"
    unfolding slice_to_earlier[OF a] by (rule wc_take)
  also have "\<dots> \<le> ca" unfolding raw by (rule context_idxs_tokens)
  finally show "wc False (slice content (end_of (clamped_idxs content cb ca mcl ! i))
               (after_idx_of (clamped_idxs content cb ca mcl ! i))) \<le> ca"
    using i by (simp add: clamped_idxs_def clamp_nth_fields)
qed

lemma expr_of_texts:
  "expr_of content x =
     (strip (slice content (fst (fst (snd x))) (snd (fst (snd x)))),
      (if 0 < before_idx_of x then lit ''...'' @ lstrip (slice content (before_idx_of x) (start_of x))
       else lstrip (slice content (before_idx_of x) (start_of x))),
      (if after_idx_of x < length content
       then rstrip (slice content (end_of x) (after_idx_of x)) @ lit ''...''
       else rstrip (slice content (end_of x) (after_idx_of x))))"
  by (cases x) (auto simp: expr_of_def Let_def)

text \<open>
  Claim C4. For every text and every extracted candidate, the before-context holds at
  most \<open>context_before\<close> (5 by default) whitespace-separated tokens and the after-context
  at most \<open>context_after\<close> (2 by default), the ellipsis marker not counted: the
  before-context is a text \<open>bt\<close> of at most \<open>context_before\<close> tokens, with the marker in
  front of it when its window does not start at index 0, and the after-context is a text
  \<open>at\<close> of at most \<open>context_after\<close> tokens, with the marker behind it when its window does
  not end at the end of the text. The tokens of a text \<open>s\<close> are \<open>s.split()\<close>.
\<close>

theorem context_word_limit:
  assumes "i < length (find_inline_exprs content context_before context_after max_context_len)"
  shows "\<exists>bt at.
           snd (find_inline_exprs content context_before context_after max_context_len ! i)
             = ((if 0 < before_idx_of
                          (clamped_idxs content context_before context_after max_context_len ! i)
                 then lit ''...'' @ bt else bt),
                (if after_idx_of
                      (clamped_idxs content context_before context_after max_context_len ! i)
                      < length content
                 then at @ lit ''...'' else at))
           \<and> length (split_ws bt None) \<le> context_before
           \<and> length (split_ws at None) \<le> context_after"
proof -
  let ?ws = "clamped_idxs content context_before context_after max_context_len"
  from assms have i: "i < length ?ws" by (simp add: find_inline_exprs_def)
  let ?bt = "lstrip (slice content (before_idx_of (?ws ! i)) (start_of (?ws ! i)))"
  let ?at = "rstrip (slice content (end_of (?ws ! i)) (after_idx_of (?ws ! i)))"
  have "find_inline_exprs content context_before context_after max_context_len ! i
          = expr_of content (?ws ! i)"
    using i by (simp add: find_inline_exprs_def)
  then have "snd (find_inline_exprs content context_before context_after max_context_len ! i)
      = ((if 0 < before_idx_of (?ws ! i) then lit ''...'' @ ?bt else ?bt),
         (if after_idx_of (?ws ! i) < length content then ?at @ lit ''...'' else ?at))"
    by (simp add: expr_of_texts)
  moreover have "length (split_ws ?bt None) \<le> context_before"
    using clamped_idxs_tokens(1)[OF i] by (simp add: length_split_ws_None wc_lstrip)
  moreover have "length (split_ws ?at None) \<le> context_after"
    using clamped_idxs_tokens(2)[OF i] by (simp add: length_split_ws_None wc_rstrip)
  ultimately show ?thesis by blast
qed

theorem context_word_limit_witness:
  "(0::nat) < length (find_inline_exprs sample_text 5 2 128)
   \<and> find_inline_exprs sample_text 5 2 128 ! 0
       = (lit ''1d20'', lit ''...'' @ lit ''r s t u v '', lit '' one two'' @ lit ''...'')
   \<and> length (split_ws (lit ''r s t u v '') None) \<le> 5
   \<and> length (split_ws (lit '' one two'') None) \<le> 2"
proof -
  have l: "(0::nat) < length (find_inline_exprs sample_text 5 2 128)"
    by (simp add: sample_exprs)
  from context_word_limit[OF l] obtain bt at where
    h: "snd (find_inline_exprs sample_text 5 2 128 ! 0)
          = ((if 0 < before_idx_of (clamped_idxs sample_text 5 2 128 ! 0)
              then lit ''...'' @ bt else bt),
             (if after_idx_of (clamped_idxs sample_text 5 2 128 ! 0) < length sample_text
              then at @ lit ''...'' else at))"
      "length (split_ws bt None) \<le> 5" "length (split_ws at None) \<le> 2"
    by blast
  have n: "length sample_text = 76" by (simp add: sample_text_def lit_def)
  from h(1) have "lit ''...'' @ bt = lit ''...r s t u v ''" "at @ lit ''...'' = lit '' one two...''"
    by (simp_all add: sample_exprs sample_clamped_idxs n)
  then have "bt = lit ''r s t u v ''" "at = lit '' one two''"
    by (simp_all add: lit_def)
  with h(2,3) l show ?thesis by (simp add: sample_exprs lit_def)
qed


section \<open>The advantage stripper: \<open>_string_search_adv\<close>\<close>

text \<open>\<open>d20.AdvType\<close>.\<close>

datatype AdvType = NONE | ADV | DIS

text \<open>
  \<open>re.search(r'(^|\s+)(adv|dis)(\s+|$)', s) is not None\<close>, and the same search for
  \<open>adv\<close> alone: there is an index \<open>j\<close> at which one of the words stands, with the start
  of the string or a whitespace character before it (\<open>^\<close> matches at index 0 only, and
  \<open>\s+\<close> ends at \<open>j\<close> exactly when the character before \<open>j\<close> is whitespace) and the end
  of the string or a whitespace character after it (\<open>$\<close> also matches before a final
  newline, which is whitespace). The words have three characters.
\<close>

definition word_at :: "str list \<Rightarrow> str \<Rightarrow> nat \<Rightarrow> bool" where
  "word_at words s j =
     ((j = 0 \<or> isspace (s ! (j - 1)))
      \<and> take 3 (drop j s) \<in> set words
      \<and> (drop (j + 3) s = [] \<or> isspace (s ! (j + 3))))"

definition re_search_word :: "str list \<Rightarrow> str \<Rightarrow> bool" where
  "re_search_word words s = list_ex (word_at words s) [0 ..< length s]"

text \<open>
  \<open>re.sub(r'(adv|dis)(\s+|$)', '', s)\<close>. The pattern matches at the beginning of a string
  that begins with \<open>adv\<close> or \<open>dis\<close> followed by the end of the string or by whitespace;
  \<open>\s+\<close> is greedy, so the match is the word and all the whitespace after it. The
  substitution scans from the left: at a match it drops the match and goes on behind it,
  otherwise it keeps the character and goes on with the next.
\<close>

definition sub_match :: "str \<Rightarrow> bool" where
  "sub_match s =
     ((take 3 s = lit ''adv'' \<or> take 3 s = lit ''dis'')
      \<and> (drop 3 s = [] \<or> isspace (hd (drop 3 s))))"

lemma sub_match_length:
  assumes "sub_match s"
  shows "3 \<le> length s"
proof -
  from assms consider "take 3 s = [97, 100, 118]" | "take 3 s = [100, 105, 115]"
    by (auto simp: sub_match_def lit_def)
  then have "length (take 3 s) = 3" by cases simp_all
  then show ?thesis by auto
qed

function re_sub_adv :: "str \<Rightarrow> str" where
  "re_sub_adv s =
     (if s = [] then []
      else if sub_match s then re_sub_adv (dropWhile isspace (drop 3 s))
      else hd s # re_sub_adv (tl s))"
  by pat_completeness auto

termination
proof (relation "measure length")
  show "wf (measure length)" by simp
next
  fix s :: str
  assume "s \<noteq> []" and m: "sub_match s"
  have "length (dropWhile isspace (drop 3 s)) \<le> length (drop 3 s)"
    by (rule length_dropWhile_le)
  with sub_match_length[OF m] show "(dropWhile isspace (drop 3 s), s) \<in> measure length"
    by simp
next
  fix s :: str
  assume "s \<noteq> []"
  then show "(tl s, s) \<in> measure length" by (cases s) simp_all
qed

declare re_sub_adv.simps [simp del]

text \<open>\<open>_string_search_adv\<close>: the pair \<open>(rollstr, adv)\<close> it returns.\<close>

definition string_search_adv :: "str \<Rightarrow> str \<times> AdvType" where
  "string_search_adv rollstr =
     (if re_search_word [lit ''adv'', lit ''dis''] rollstr
      then (re_sub_adv rollstr, if re_search_word [lit ''adv''] rollstr then ADV else DIS)
      else (rollstr, NONE))"

lemma take3_drop_iff:
  "take 3 (drop j s) = [a, b, c] \<longleftrightarrow>
     Suc (Suc j) < length s \<and> s ! j = a \<and> s ! Suc j = b \<and> s ! Suc (Suc j) = c"
proof
  assume h: "take 3 (drop j s) = [a, b, c]"
  then have "length (take 3 (drop j s)) = 3" by simp
  then have l: "Suc (Suc j) < length s" by auto
  from h have "take 3 (drop j s) ! 0 = a" "take 3 (drop j s) ! 1 = b" "take 3 (drop j s) ! 2 = c"
    by simp_all
  with l show "Suc (Suc j) < length s \<and> s ! j = a \<and> s ! Suc j = b \<and> s ! Suc (Suc j) = c"
    by (simp add: numeral_2_eq_2)
next
  assume h: "Suc (Suc j) < length s \<and> s ! j = a \<and> s ! Suc j = b \<and> s ! Suc (Suc j) = c"
  then have l: "Suc (Suc j) < length s" by simp
  have "drop j s = s ! j # drop (Suc j) s"
    using l by (simp add: Cons_nth_drop_Suc)
  moreover have "drop (Suc j) s = s ! Suc j # drop (Suc (Suc j)) s"
    using l by (simp add: Cons_nth_drop_Suc)
  moreover have "drop (Suc (Suc j)) s = s ! Suc (Suc j) # drop (Suc (Suc (Suc j))) s"
    using l by (simp add: Cons_nth_drop_Suc)
  ultimately have "take 3 (drop j s) = [s ! j, s ! Suc j, s ! Suc (Suc j)]"
    by (simp add: numeral_3_eq_3)
  with h show "take 3 (drop j s) = [a, b, c]" by simp
qed

text \<open>
  The substitution, said by positions: the match that begins at index \<open>j\<close> of \<open>s\<close> covers
  \<open>span s j\<close> characters, the word and the whitespace after it; position \<open>i\<close> of \<open>s\<close> is
  removed when it lies in the match that begins at some index \<open>j \<le> i\<close>; and
  \<open>without_removed s\<close> is \<open>s\<close> without its removed positions.
\<close>

definition span :: "str \<Rightarrow> nat \<Rightarrow> nat" where
  "span s j = 3 + length (takeWhile isspace (drop (j + 3) s))"

definition removed_at :: "str \<Rightarrow> nat \<Rightarrow> bool" where
  "removed_at s i = list_ex (\<lambda>j. sub_match (drop j s) \<and> i < j + span s j) [0 ..< Suc i]"

definition without_removed :: "str \<Rightarrow> str" where
  "without_removed s = map (nth s) (filter (\<lambda>i. \<not> removed_at s i) [0 ..< length s])"

lemma removed_at_iff:
  "removed_at s i \<longleftrightarrow> (\<exists>j\<le>i. sub_match (drop j s) \<and> i < j + span s j)"
  by (auto simp: removed_at_def list_ex_iff less_Suc_eq_le simp del: upt_Suc)

lemma sub_match_first:
  assumes "sub_match (drop j s)"
  shows "Suc (Suc j) < length s"
    and "s ! j = 97 \<and> s ! Suc j = 100 \<and> s ! Suc (Suc j) = 118
      \<or> s ! j = 100 \<and> s ! Suc j = 105 \<and> s ! Suc (Suc j) = 115"
  using assms by (auto simp: sub_match_def lit_def take3_drop_iff)

lemma no_overlap:
  assumes "sub_match s" and "0 < j" and "j < span s 0"
  shows "\<not> sub_match (drop j s)"
proof
  assume m: "sub_match (drop j s)"
  from sub_match_first(2)[of 0 s] assms(1)
  have s0: "s ! 0 = 97 \<and> s ! Suc 0 = 100 \<and> s ! Suc (Suc 0) = 118
      \<or> s ! 0 = 100 \<and> s ! Suc 0 = 105 \<and> s ! Suc (Suc 0) = 115"
    by simp
  from sub_match_first(2)[OF m]
  have sj: "s ! j = 97 \<and> s ! Suc j = 100 \<or> s ! j = 100 \<and> s ! Suc j = 105"
    by blast
  consider "j = Suc 0" | "j = Suc (Suc 0)" | "3 \<le> j" using assms(2) by arith
  then show False
  proof cases
    case 1
    with s0 sj show False by auto
  next
    case 2
    with s0 sj show False by auto
  next
    case 3
    let ?run = "takeWhile isspace (drop 3 s)"
    from 3 assms(3) have k: "j - 3 < length ?run" by (simp add: span_def)
    then have "?run ! (j - 3) \<in> set ?run" by (rule nth_mem)
    then have "isspace (?run ! (j - 3))" by (auto dest: set_takeWhileD)
    moreover have "?run ! (j - 3) = drop 3 s ! (j - 3)"
      using k by (rule takeWhile_nth)
    moreover have "drop 3 s ! (j - 3) = s ! j"
      using 3 sub_match_first(1)[OF m] by simp
    ultimately have "isspace (s ! j)" by simp
    with sj show False by (auto simp: isspace_def)
  qed
qed

lemma span_drop: "span (drop n s) j = span s (n + j)"
  by (simp add: span_def ac_simps)

lemma map_add_upt_left: "map (\<lambda>i. n + i) [0 ..< m] = [n ..< n + m]"
  by (induction m) simp_all

lemma removed_at_shift:
  assumes "\<forall>j<n. sub_match (drop j s) \<longrightarrow> j + span s j \<le> n"
  shows "removed_at s (n + i) \<longleftrightarrow> removed_at (drop n s) i"
proof
  assume "removed_at s (n + i)"
  then obtain j where j: "j \<le> n + i" "sub_match (drop j s)" "n + i < j + span s j"
    by (auto simp: removed_at_iff)
  have "n \<le> j"
  proof (rule ccontr)
    assume "\<not> n \<le> j"
    then have "j < n" by simp
    with assms j(2) have "j + span s j \<le> n" by blast
    with j(3) show False by simp
  qed
  then obtain j' where j': "j = n + j'" using le_Suc_ex by blast
  with j have "j' \<le> i" "sub_match (drop j' (drop n s))" "i < j' + span (drop n s) j'"
    by (simp_all add: span_drop add.commute)
  then show "removed_at (drop n s) i" by (auto simp: removed_at_iff)
next
  assume "removed_at (drop n s) i"
  then obtain j where j: "j \<le> i" "sub_match (drop j (drop n s))" "i < j + span (drop n s) j"
    by (auto simp: removed_at_iff)
  then have "n + j \<le> n + i" "sub_match (drop (n + j) s)" "n + i < (n + j) + span s (n + j)"
    by (simp_all add: span_drop add.commute)
  then show "removed_at s (n + i)" unfolding removed_at_iff by blast
qed

lemma without_removed_split:
  assumes "n \<le> length s" and "\<forall>j<n. sub_match (drop j s) \<longrightarrow> j + span s j \<le> n"
  shows "without_removed s
           = map (nth s) (filter (\<lambda>i. \<not> removed_at s i) [0 ..< n]) @ without_removed (drop n s)"
proof -
  have "[0 ..< n + (length s - n)] = [0 ..< n] @ [n ..< n + (length s - n)]"
    by (rule upt_add_eq_append) simp
  then have u: "[0 ..< length s] = [0 ..< n] @ map (\<lambda>i. n + i) [0 ..< length s - n]"
    using assms(1) by (simp add: map_add_upt_left)
  have "map (nth s) (filter (\<lambda>i. \<not> removed_at s i) (map (\<lambda>i. n + i) [0 ..< length s - n]))
          = map (nth s) (map (\<lambda>i. n + i) (filter (\<lambda>i. \<not> removed_at s (n + i)) [0 ..< length s - n]))"
    by (simp add: filter_map comp_def)
  also have "\<dots> = map (\<lambda>i. s ! (n + i)) (filter (\<lambda>i. \<not> removed_at (drop n s) i) [0 ..< length s - n])"
    by (simp add: removed_at_shift[OF assms(2)] comp_def)
  also have "\<dots> = map (nth (drop n s)) (filter (\<lambda>i. \<not> removed_at (drop n s) i) [0 ..< length s - n])"
    using assms(1) by (intro map_cong) simp_all
  finally show ?thesis
    unfolding without_removed_def by (subst u) simp
qed

lemma re_sub_adv_eq: "re_sub_adv s = without_removed s"
proof (induction s rule: re_sub_adv.induct)
  case (1 s)
  show ?case
  proof (cases "s = []")
    case True
    then show ?thesis by (simp add: re_sub_adv.simps[of "[]"] without_removed_def)
  next
    case ne: False
    show ?thesis
    proof (cases "sub_match s")
      case True
      let ?n = "span s 0"
      have run: "length (takeWhile isspace (drop 3 s)) \<le> length (drop 3 s)"
        by (rule length_takeWhile_le)
      with sub_match_length[OF True] have n: "?n \<le> length s" by (simp add: span_def)
      have cond: "\<forall>j<?n. sub_match (drop j s) \<longrightarrow> j + span s j \<le> ?n"
      proof (intro allI impI)
        fix j assume "j < ?n" and m: "sub_match (drop j s)"
        with no_overlap[OF True, of j] have "j = 0" by (cases "j = 0") auto
        then show "j + span s j \<le> ?n" by simp
      qed
      have all: "removed_at s i" if "i < ?n" for i
        unfolding removed_at_iff using True that by (intro exI[of _ 0]) simp
      then have "filter (\<lambda>i. \<not> removed_at s i) [0 ..< ?n] = []"
        by (simp add: filter_empty_conv)
      with without_removed_split[OF n cond]
      have "without_removed s = without_removed (drop ?n s)" by simp
      moreover have "drop ?n s = dropWhile isspace (drop 3 s)"
        by (simp add: span_def dropWhile_eq_drop add.commute)
      moreover have "re_sub_adv s = re_sub_adv (dropWhile isspace (drop 3 s))"
        using ne True by (simp add: re_sub_adv.simps[of s])
      ultimately show ?thesis
        using "1.IH"(1)[OF ne True] by simp
    next
      case False
      from ne obtain c cs where s: "s = c # cs" by (cases s) auto
      have cond: "\<forall>j<1. sub_match (drop j s) \<longrightarrow> j + span s j \<le> 1"
        using False by simp
      have "\<not> removed_at s 0" using False by (simp add: removed_at_iff)
      then have "filter (\<lambda>i. \<not> removed_at s i) [0 ..< 1] = [0]" by simp
      with without_removed_split[OF _ cond] s
      have "without_removed s = c # without_removed cs" by simp
      moreover have "re_sub_adv s = hd s # re_sub_adv (tl s)"
        using ne False by (simp add: re_sub_adv.simps[of s])
      ultimately show ?thesis
        using "1.IH"(2)[OF ne False] s by simp
    qed
  qed
qed

text \<open>Equations that evaluate the substitution on a string written out.\<close>

lemma re_sub_adv_Nil: "re_sub_adv [] = []"
  by (simp add: re_sub_adv.simps[of "[]"])

lemma re_sub_adv_Cons:
  "re_sub_adv (c # cs) =
     (if sub_match (c # cs) then re_sub_adv (dropWhile isspace (drop 3 (c # cs)))
      else c # re_sub_adv cs)"
  by (simp add: re_sub_adv.simps[of "c # cs"])

lemma string_search_adv_dis_extra:
  "string_search_adv (lit ''1d20 dis extra'') = (lit ''1d20 extra'', DIS)"
  by (simp add: string_search_adv_def re_search_word_def word_at_def sub_match_def lit_def
      isspace_def re_sub_adv_Nil re_sub_adv_Cons)

lemma string_search_adv_advantage:
  "string_search_adv (lit ''advantage'') = (lit ''advantage'', NONE)"
  by (simp add: string_search_adv_def re_search_word_def word_at_def lit_def isspace_def)

lemma string_search_adv_both:
  "string_search_adv (lit ''adv dis 1d20'') = (lit ''1d20'', ADV)"
  by (simp add: string_search_adv_def re_search_word_def word_at_def sub_match_def lit_def
      isspace_def re_sub_adv_Nil re_sub_adv_Cons)

text \<open>
  Claim C5 as written fails on its own example: for \<open>1d20 dis extra\<close> the substitution
  takes the space after \<open>dis\<close> with it, and the cleaned string is \<open>1d20 extra\<close> with one
  space, not \<open>1d20  extra\<close> with two. Nor is only the detected word removed: in
  \<open>adv dis 1d20\<close> the mode is advantage and \<open>dis\<close> is removed as well.
\<close>

theorem string_search_adv_removes_more:
  "string_search_adv (lit ''1d20 dis extra'') = (lit ''1d20 extra'', DIS)
   \<and> string_search_adv (lit ''1d20 dis extra'') \<noteq> (lit ''1d20  extra'', DIS)
   \<and> string_search_adv (lit ''adv dis 1d20'') = (lit ''1d20'', ADV)"
  by (simp add: string_search_adv_dis_extra string_search_adv_both)
    (simp add: lit_def)

subsection \<open>The whole words \<open>adv\<close> and \<open>dis\<close>\<close>

text \<open>
  The two detection patterns \<open>(^|\s+)(adv|dis)(\s+|$)\<close> and \<open>(^|\s+)adv(\s+|$)\<close> look for
  a whole word: \<open>word_at\<close> is their match at a position. \<open>only_whole_words s\<close> says that
  in \<open>s\<close> the words \<open>adv\<close> and \<open>dis\<close> are followed by whitespace or by the end of the
  string only where they are whole words, that is where they also stand at the start of
  the string or after whitespace.
\<close>

definition only_whole_words :: "str \<Rightarrow> bool" where
  "only_whole_words s =
     list_all (\<lambda>j. \<not> sub_match (drop j s) \<or> j = 0 \<or> isspace (s ! (j - 1)))
       [0 ..< length s]"

text \<open>
  \<open>word_removed_at s i\<close>: the character at index \<open>i\<close> belongs to a whole word \<open>adv\<close> or
  \<open>dis\<close> or to the whitespace that follows it. \<open>without_words s\<close> is \<open>s\<close> without these
  characters.
\<close>

definition word_removed_at :: "str \<Rightarrow> nat \<Rightarrow> bool" where
  "word_removed_at s i =
     list_ex (\<lambda>j. word_at [lit ''adv'', lit ''dis''] s j \<and> i < j + span s j) [0 ..< Suc i]"

definition without_words :: "str \<Rightarrow> str" where
  "without_words s = map (nth s) (filter (\<lambda>i. \<not> word_removed_at s i) [0 ..< length s])"

lemma word_at_sub_match:
  "word_at [lit ''adv'', lit ''dis''] s j
     \<longleftrightarrow> (j = 0 \<or> isspace (s ! (j - 1))) \<and> sub_match (drop j s)"
proof -
  have "(drop (j + 3) s = [] \<or> isspace (s ! (j + 3)))
          \<longleftrightarrow> (drop 3 (drop j s) = [] \<or> isspace (hd (drop 3 (drop j s))))"
    by (cases "j + 3 < length s") (simp_all add: hd_drop_conv_nth add.commute)
  then show ?thesis
    by (auto simp: word_at_def sub_match_def)
qed

lemma word_removed_at_iff:
  "word_removed_at s i
     \<longleftrightarrow> (\<exists>j\<le>i. word_at [lit ''adv'', lit ''dis''] s j \<and> i < j + span s j)"
  by (auto simp: word_removed_at_def list_ex_iff less_Suc_eq_le simp del: upt_Suc)

lemma only_whole_words_removed:
  assumes "only_whole_words s" and "i < length s"
  shows "removed_at s i \<longleftrightarrow> word_removed_at s i"
proof -
  have w: "j = 0 \<or> isspace (s ! (j - 1))" if "sub_match (drop j s)" "j \<le> i" for j
  proof -
    from that(2) assms(2) have "j \<in> set [0 ..< length s]" by simp
    with assms(1) that(1) show ?thesis
      unfolding only_whole_words_def list_all_iff by blast
  qed
  show ?thesis
    unfolding removed_at_iff word_removed_at_iff word_at_sub_match
    using w by blast
qed

lemma only_whole_words_without:
  assumes "only_whole_words s"
  shows "without_removed s = without_words s"
proof -
  have "filter (\<lambda>i. \<not> removed_at s i) [0 ..< length s]
          = filter (\<lambda>i. \<not> word_removed_at s i) [0 ..< length s]"
    by (rule filter_cong) (simp_all add: only_whole_words_removed[OF assms])
  then show ?thesis by (simp add: without_removed_def without_words_def)
qed

lemma only_whole_words_dis_extra: "only_whole_words (lit ''1d20 dis extra'')"
  by (simp add: only_whole_words_def sub_match_def lit_def isspace_def)

text \<open>
  Claim C5, as the code has it. When a mode is detected in a command string in which
  \<open>adv\<close> and \<open>dis\<close> are followed by whitespace or by the end of the string only where they
  are whole words, the cleaned string is the input without its whole words \<open>adv\<close> and
  \<open>dis\<close>, each removed together with the whitespace after it, and no other character is
  removed. When no mode is detected the string is returned as it is. \<open>1d20 dis extra\<close>
  gives \<open>1d20 extra\<close> with mode disadvantage, and \<open>advantage\<close> is returned unchanged with
  mode none.
\<close>

theorem string_search_adv_removes_words:
  "(snd (string_search_adv s) \<noteq> NONE \<and> only_whole_words s \<longrightarrow>
      fst (string_search_adv s) = without_words s)
   \<and> (snd (string_search_adv s) = NONE \<longrightarrow> fst (string_search_adv s) = s)
   \<and> string_search_adv (lit ''1d20 dis extra'') = (lit ''1d20 extra'', DIS)
   \<and> string_search_adv (lit ''advantage'') = (lit ''advantage'', NONE)"
  by (simp add: string_search_adv_def[of s] re_sub_adv_eq only_whole_words_without
      string_search_adv_dis_extra string_search_adv_advantage)

theorem string_search_adv_removes_words_witness:
  "snd (string_search_adv (lit ''1d20 dis extra'')) \<noteq> NONE
   \<and> only_whole_words (lit ''1d20 dis extra'')
   \<and> fst (string_search_adv (lit ''1d20 dis extra'')) = lit ''1d20 extra''
   \<and> without_words (lit ''1d20 dis extra'') = lit ''1d20 extra''
   \<and> snd (string_search_adv (lit ''advantage'')) = NONE
   \<and> fst (string_search_adv (lit ''advantage'')) = lit ''advantage''"
  using string_search_adv_removes_words[of "lit ''1d20 dis extra''"]
    string_search_adv_removes_words[of "lit ''advantage''"]
    only_whole_words_dis_extra
  by (simp add: string_search_adv_dis_extra string_search_adv_advantage)


section \<open>The roll engine and the effects of a command\<close>

text \<open>
  The roll engine is the library \<open>d20\<close>, outside this repository. The commands depend on
  it through a handful of calls, which are the fields of the record below; every theorem
  holds for every engine. A call that can raise returns the error as a value:
  \<open>d20.RollSyntaxError\<close> (a subclass of \<open>d20.RollError\<close>, caught first where both are caught)
  or any other \<open>d20.RollError\<close>, each with its message \<open>str(e)\<close>. A roller draws random
  numbers and keeps a context between rolls: \<open>'ctx\<close> is all the state a roll reads and
  writes, and every roll returns the new state.
\<close>

datatype d20_error = RollSyntaxError str | RollError str

text \<open>
  \<open>d20_parse\<close> is \<open>d20.parse(roll_str, allow_comments=True)\<close>, \<open>roller_roll_ast\<close> is
  \<open>roller.roll(ast, advantage=adv)\<close>, \<open>roller_roll\<close> is \<open>roller.roll(expr,
  allow_comments=True)\<close> and \<open>d20_roll\<close> is \<open>d20.roll(rollStr, advantage=adv, ...)\<close>; of a
  result \<open>res\<close>, \<open>res_str\<close> is \<open>str(res)\<close>, \<open>res_result\<close> is \<open>res.result\<close> and \<open>res_total\<close> is
  \<open>res.total\<close>, an integer here (a total that is a float is outside this model); of a
  parsed expression, \<open>ast_comment\<close> is \<open>ast.comment\<close>.
\<close>

record ('ast, 'res, 'ctx) d20 =
  d20_parse :: "str \<Rightarrow> d20_error + 'ast"
  roller_roll_ast :: "'ctx \<Rightarrow> 'ast \<Rightarrow> AdvType \<Rightarrow> (d20_error + 'res) \<times> 'ctx"
  roller_roll :: "'ctx \<Rightarrow> str \<Rightarrow> (d20_error + 'res) \<times> 'ctx"
  d20_roll :: "'ctx \<Rightarrow> str \<Rightarrow> AdvType \<Rightarrow> (d20_error + 'res) \<times> 'ctx"
  res_str :: "'res \<Rightarrow> str"
  res_result :: "'res \<Rightarrow> str"
  res_total :: "'res \<Rightarrow> int"
  ast_comment :: "'ast \<Rightarrow> str option"

text \<open>
  What a command does besides returning: the calls of the engine and the calls of the
  chat platform, in the order in which they happen. \<open>Send\<close> is \<open>ctx.send\<close>, \<open>Delete\<close> is
  \<open>try_delete(ctx.message)\<close>, \<open>IncreaseStat\<close> is \<open>Stats.increase_stat\<close> and \<open>GameLog\<close> is
  \<open>gamelog.send_roll\<close>. A command returns \<open>Inr ()\<close>, or \<open>Inl\<close> the error that left it,
  together with this list.
\<close>

datatype 'res event =
    Parse str
  | Roll
  | Send str
  | Delete
  | IncreaseStat str
  | GameLog 'res

text \<open>An integer in an f-string: its decimal digits, with a minus sign when negative.\<close>

function digits :: "nat \<Rightarrow> str" where
  "digits n = (if n < 10 then [48 + n] else digits (n div 10) @ [48 + n mod 10])"
  by pat_completeness auto

termination
  by (relation "measure id") auto

declare digits.simps [simp del]

definition str_int :: "int \<Rightarrow> str" where
  "str_int i = (if i < 0 then 45 # digits (nat (- i)) else digits (nat i))"

text \<open>\<open>sep.join(xs)\<close>.\<close>

fun join :: "str \<Rightarrow> str list \<Rightarrow> str" where
  "join sep [] = []"
| "join sep [x] = x"
| "join sep (x # y # xs) = x @ sep @ join sep (y # xs)"

section \<open>The batch roll: \<open>Dice._roll_many\<close>\<close>

text \<open>
  The loop \<open>for _ in range(iterations)\<close>, with the list \<open>results\<close> and the counter
  \<open>successes\<close> it updates. A roll that raises ends the loop and the command.
\<close>

fun roll_loop ::
  "('ast, 'res, 'ctx) d20 \<Rightarrow> 'ast \<Rightarrow> AdvType \<Rightarrow> int option \<Rightarrow> nat \<Rightarrow> 'ctx \<Rightarrow> 'res list \<Rightarrow> nat
     \<Rightarrow> (d20_error + 'res list \<times> nat) \<times> 'res event list" where
  "roll_loop d ast adv dc 0 rctx results successes = (Inr (results, successes), [])"
| "roll_loop d ast adv dc (Suc n) rctx results successes =
     (case roller_roll_ast d rctx ast adv of
        (Inl err, rctx') \<Rightarrow> (Inl err, [Roll])
      | (Inr res, rctx') \<Rightarrow>
          (let successes = (if dc \<noteq> None \<and> the dc \<le> res_total d res
                            then successes + 1 else successes);
               (r, events) = roll_loop d ast adv dc n rctx' (results @ [res]) successes
           in (r, Roll # events)))"

text \<open>
  The header (with the comment of the expression in front when it has one that is not
  empty), the footer, the full output and the output of the size policy.
\<close>

definition roll_many_header :: "('ast, 'res, 'ctx) d20 \<Rightarrow> int \<Rightarrow> int option \<Rightarrow> 'ast \<Rightarrow> str" where
  "roll_many_header d iterations dc ast =
     (let header = (case dc of
              None \<Rightarrow> lit ''Rolling '' @ str_int iterations @ lit '' iterations...''
            | Some dc \<Rightarrow> lit ''Rolling '' @ str_int iterations @ lit '' iterations, DC ''
                         @ str_int dc @ lit ''...'')
      in case ast_comment d ast of
           None \<Rightarrow> header
         | Some c \<Rightarrow> if c = [] then header else c @ lit '': '' @ header)"

definition roll_many_footer ::
  "('ast, 'res, 'ctx) d20 \<Rightarrow> int option \<Rightarrow> 'res list \<Rightarrow> nat \<Rightarrow> str" where
  "roll_many_footer d dc results successes =
     (case dc of
        None \<Rightarrow> str_int (sum_list (map (res_total d) results)) @ lit '' total.''
      | Some dc \<Rightarrow> str_int (int successes) @ lit '' successes, ''
                   @ str_int (sum_list (map (res_total d) results)) @ lit '' total.'')"

definition roll_many_full :: "('ast, 'res, 'ctx) d20 \<Rightarrow> str \<Rightarrow> 'res list \<Rightarrow> str \<Rightarrow> str" where
  "roll_many_full d header results footer =
     header @ [10] @ join [10] (map (res_str d) results) @ [10] @ footer"

definition roll_many_short :: "('ast, 'res, 'ctx) d20 \<Rightarrow> str \<Rightarrow> 'res list \<Rightarrow> str \<Rightarrow> str" where
  "roll_many_short d header results footer =
     header @ [10] @ res_str d (results ! 0) @ [10]
       @ lit ''['' @ str_int (int (length results) - 1)
       @ lit '' results omitted for output size.]'' @ [10] @ footer"

text \<open>
  \<open>_roll_many\<close>. \<open>iterations\<close> is a Python integer; \<open>dc\<close> and \<open>adv\<close> may be \<open>None\<close>.
  \<open>results[0]\<close> is read only after at least one roll.
\<close>

definition roll_many ::
  "('ast, 'res, 'ctx) d20 \<Rightarrow> str \<Rightarrow> 'ctx \<Rightarrow> int \<Rightarrow> str \<Rightarrow> int option \<Rightarrow> AdvType option
     \<Rightarrow> (d20_error + unit) \<times> 'res event list" where
  "roll_many d author_mention rctx iterations roll_str dc adv =
     (if iterations < 1 \<or> iterations > 100
      then (Inr (), [Send (lit ''Too many or too few iterations.'')])
      else
        let adv = (case adv of None \<Rightarrow> NONE | Some a \<Rightarrow> a) in
        case d20_parse d roll_str of
          Inl err \<Rightarrow> (Inl err, [Parse roll_str])
        | Inr ast \<Rightarrow>
            (case roll_loop d ast adv dc (nat iterations) rctx [] 0 of
               (Inl err, events) \<Rightarrow> (Inl err, Parse roll_str # events)
             | (Inr (results, successes), events) \<Rightarrow>
                 let header = roll_many_header d iterations dc ast;
                     footer = roll_many_footer d dc results successes;
                     out = roll_many_full d header results footer;
                     out = (if length out > 1500
                            then roll_many_short d header results footer else out)
                 in (Inr (), Parse roll_str # events
                       @ [Delete, Send (author_mention @ [10] @ out),
                          IncreaseStat (lit ''dice_rolled_life'')])))"

section \<open>The roll command: \<open>Dice.rollCmd\<close>\<close>

text \<open>\<open>gamelog\<close> says whether the cog \<open>GameLog\<close> is loaded.\<close>

definition rollCmd ::
  "('ast, 'res, 'ctx) d20 \<Rightarrow> str \<Rightarrow> bool \<Rightarrow> 'ctx \<Rightarrow> str
     \<Rightarrow> ((d20_error + unit) \<times> 'res event list) \<times> 'ctx" where
  "rollCmd d author_mention gamelog rctx rollStr =
     (if rollStr = lit ''0/0''
      then ((Inr (), [Send (lit ''What do you expect me to do, destroy the universe?'')]), rctx)
      else
        case string_search_adv rollStr of (rollStr, adv) \<Rightarrow>
          (case d20_roll d rctx rollStr adv of
             (Inl err, rctx') \<Rightarrow> ((Inl err, [Roll]), rctx')
           | (Inr res, rctx') \<Rightarrow>
               let out = author_mention @ lit ''  :game_die:'' @ [10] @ res_str d res;
                   out = (if length out > 1999
                          then author_mention @ lit ''  :game_die:'' @ [10]
                               @ take 100 (res_str d res) @ lit ''...'' @ [10]
                               @ lit ''**Total**: '' @ str_int (res_total d res)
                          else out)
               in ((Inr (), [Roll, Delete, Send out, IncreaseStat (lit ''dice_rolled_life'')]
                            @ (if gamelog then [GameLog res] else [])), rctx')))"

subsection \<open>What the loop returns\<close>

lemma roll_loop_ok:
  "roll_loop d ast adv dc n rctx acc s = (Inr (results, successes), events) \<Longrightarrow>
     events = replicate n Roll
     \<and> length results = length acc + n
     \<and> take (length acc) results = acc
     \<and> (0 < n \<longrightarrow> fst (roller_roll_ast d rctx ast adv) = Inr (results ! length acc))"
proof (induction n arbitrary: rctx acc s results successes events)
  case 0
  then show ?case by simp
next
  case (Suc n)
  obtain o1 rctx' where r: "roller_roll_ast d rctx ast adv = (o1, rctx')"
    by (cases "roller_roll_ast d rctx ast adv")
  show ?case
  proof (cases o1)
    case (Inl err)
    with Suc.prems r show ?thesis by simp
  next
    case (Inr res)
    let ?s = "if dc \<noteq> None \<and> the dc \<le> res_total d res then s + 1 else s"
    obtain r2 ev2 where l: "roll_loop d ast adv dc n rctx' (acc @ [res]) ?s = (r2, ev2)"
      by (cases "roll_loop d ast adv dc n rctx' (acc @ [res]) ?s")
    from Suc.prems r Inr l have e: "r2 = Inr (results, successes)" "events = Roll # ev2"
      by (simp_all add: Let_def)
    from Suc.IH[OF l[unfolded e(1)]]
    have ih: "ev2 = replicate n Roll" "length results = length (acc @ [res]) + n"
        "take (length (acc @ [res])) results = acc @ [res]"
      by simp_all
    from ih(3) have h: "take (Suc (length acc)) results = acc @ [res]" by simp
    have "results ! length acc = take (Suc (length acc)) results ! length acc" by simp
    also have "\<dots> = (acc @ [res]) ! length acc" by (simp only: h)
    finally have t2: "results ! length acc = res" by simp
    have "take (length acc) results = take (length acc) (take (Suc (length acc)) results)"
      by (simp add: min_def)
    also have "\<dots> = take (length acc) (acc @ [res])" by (simp only: h)
    finally have t1: "take (length acc) results = acc" by simp
    note t = t1 t2
    from e ih t r Inr show ?thesis by simp
  qed
qed

lemma roll_loop_err:
  "roll_loop d ast adv dc n rctx acc s = (Inl err, events) \<Longrightarrow>
     \<exists>k. 0 < k \<and> k \<le> n \<and> events = replicate k Roll"
proof (induction n arbitrary: rctx acc s events)
  case 0
  then show ?case by simp
next
  case (Suc n)
  obtain o1 rctx' where r: "roller_roll_ast d rctx ast adv = (o1, rctx')"
    by (cases "roller_roll_ast d rctx ast adv")
  show ?case
  proof (cases o1)
    case (Inl e)
    with Suc.prems r have "events = replicate 1 Roll" by simp
    then show ?thesis by (intro exI[of _ 1]) simp
  next
    case (Inr res)
    let ?s = "if dc \<noteq> None \<and> the dc \<le> res_total d res then s + 1 else s"
    obtain r2 ev2 where l: "roll_loop d ast adv dc n rctx' (acc @ [res]) ?s = (r2, ev2)"
      by (cases "roll_loop d ast adv dc n rctx' (acc @ [res]) ?s")
    from Suc.prems r Inr l have e: "r2 = Inl err" "events = Roll # ev2"
      by (simp_all add: Let_def)
    from Suc.IH[OF l[unfolded e(1)]] obtain k where "0 < k" "k \<le> n" "ev2 = replicate k Roll"
      by blast
    with e(2) show ?thesis by (intro exI[of _ "Suc k"]) simp
  qed
qed





subsection \<open>A sample engine\<close>

text \<open>
  An engine that knows two expressions: \<open>1+1\<close> rolls 2, \<open>1/0\<close> parses and raises a roll
  error when rolled, and everything else is a syntax error. Its context counts the rolls.
\<close>

definition sample_d20 :: "(str, int, nat) d20" where
  "sample_d20 =
     \<lparr> d20_parse = (\<lambda>s. if s = lit ''1+1'' \<or> s = lit ''1/0'' then Inr s
                          else Inl (RollSyntaxError (lit ''Unexpected input''))),
       roller_roll_ast = (\<lambda>c ast adv.
          if ast = lit ''1/0'' then (Inl (RollError (lit ''Cannot divide by zero.'')), Suc c)
          else (Inr 2, Suc c)),
       roller_roll = (\<lambda>c s.
          if s = lit ''1+1'' then (Inr 2, Suc c)
          else if s = lit ''1/0'' then (Inl (RollError (lit ''Cannot divide by zero.'')), Suc c)
          else (Inl (RollSyntaxError (lit ''Unexpected input'')), Suc c)),
       d20_roll = (\<lambda>c s adv.
          if s = lit ''1+1'' then (Inr 2, Suc c)
          else if s = lit ''1/0'' then (Inl (RollError (lit ''Cannot divide by zero.'')), Suc c)
          else (Inl (RollSyntaxError (lit ''Unexpected input'')), Suc c)),
       res_str = (\<lambda>r. lit ''1 + 1 = `2`''),
       res_result = (\<lambda>r. lit ''1 + 1 = `2`''),
       res_total = (\<lambda>r. r),
       ast_comment = (\<lambda>a. None) \<rparr>"

lemma digits_numeral [simp]:
  "digits (numeral k) = (if (numeral k :: nat) < 10 then [48 + numeral k]
     else digits (numeral k div 10) @ [48 + numeral k mod 10])"
  by (rule digits.simps)

lemma digits_0 [simp]: "digits 0 = [48]"
  by (simp add: digits.simps[of 0])

lemma digits_1 [simp]: "digits (Suc 0) = [49]"
  by (simp add: digits.simps[of "Suc 0"])

lemma roll_loop_numeral:
  "roll_loop d ast adv dc (numeral k) rctx results successes =
     (case roller_roll_ast d rctx ast adv of
        (Inl err, rctx') \<Rightarrow> (Inl err, [Roll])
      | (Inr res, rctx') \<Rightarrow>
          (let successes = (if dc \<noteq> None \<and> the dc \<le> res_total d res
                            then successes + 1 else successes);
               (r, events) = roll_loop d ast adv dc (pred_numeral k) rctx' (results @ [res])
                               successes
           in (r, Roll # events)))"
  by (simp only: numeral_eq_Suc roll_loop.simps)


lemma sample_rejected_0:
  "roll_many sample_d20 (lit ''@u'') 0 0 (lit ''1+1'') None None
     = (Inr (), [Send (lit ''Too many or too few iterations.'')])"
  by (simp add: roll_many_def)

lemma sample_three:
  "roll_many sample_d20 (lit ''@u'') 0 3 (lit ''1+1'') None None
     = (Inr (), [Parse (lit ''1+1''), Roll, Roll, Roll, Delete,
          Send (lit ''@u'' @ [10] @ lit ''Rolling 3 iterations...'' @ [10]
                @ lit ''1 + 1 = `2`'' @ [10] @ lit ''1 + 1 = `2`'' @ [10] @ lit ''1 + 1 = `2`''
                @ [10] @ lit ''6 total.''),
          IncreaseStat (lit ''dice_rolled_life'')])"
  by (simp add: roll_many_def sample_d20_def roll_loop_numeral Let_def roll_many_header_def
      roll_many_footer_def roll_many_full_def str_int_def lit_def)



subsection \<open>The bounds of the iteration count\<close>





subsection \<open>The size policy\<close>

text \<open>
  Claim C8. For every batch roll whose full output (header, one line per iteration,
  footer) is longer than 1500 characters, the reply has, in place of the lines of the
  iterations, only the rendered result of the first iteration and the line counting the
  omitted results, and the header and the footer of the full output unchanged.
\<close>

theorem roll_many_output_size:
  assumes "1 \<le> iterations" and "iterations \<le> 100"
    and "d20_parse d roll_str = Inr ast"
    and "roll_loop d ast (case adv of None \<Rightarrow> NONE | Some a \<Rightarrow> a) dc (nat iterations) rctx [] 0
           = (Inr (results, successes), events)"
    and "header = roll_many_header d iterations dc ast"
    and "footer = roll_many_footer d dc results successes"
    and "1500 < length (header @ [10] @ join [10] (map (res_str d) results) @ [10] @ footer)"
  shows "roll_many d author_mention rctx iterations roll_str dc adv
           = (Inr (), Parse roll_str # events
                @ [Delete,
                   Send (author_mention @ [10] @ header @ [10] @ res_str d (results ! 0) @ [10]
                         @ lit ''['' @ str_int (int (length results) - 1)
                         @ lit '' results omitted for output size.]'' @ [10] @ footer),
                   IncreaseStat (lit ''dice_rolled_life'')])
         \<and> length results = nat iterations
         \<and> fst (roller_roll_ast d rctx ast (case adv of None \<Rightarrow> NONE | Some a \<Rightarrow> a))
             = Inr (results ! 0)"
proof -
  from assms(1) have n: "0 < nat iterations" by simp
  from roll_loop_ok[OF assms(4)] n
  have "length results = nat iterations"
    "fst (roller_roll_ast d rctx ast (case adv of None \<Rightarrow> NONE | Some a \<Rightarrow> a)) = Inr (results ! 0)"
    by simp_all
  moreover from assms have "roll_many d author_mention rctx iterations roll_str dc adv
           = (Inr (), Parse roll_str # events
                @ [Delete,
                   Send (author_mention @ [10] @ header @ [10] @ res_str d (results ! 0) @ [10]
                         @ lit ''['' @ str_int (int (length results) - 1)
                         @ lit '' results omitted for output size.]'' @ [10] @ footer),
                   IncreaseStat (lit ''dice_rolled_life'')])"
    by (simp add: roll_many_def Let_def roll_many_full_def roll_many_short_def)
  ultimately show ?thesis by simp
qed

text \<open>The sample engine with results that render as 1600 characters.\<close>

definition long_d20 :: "(str, int, nat) d20" where
  "long_d20 = sample_d20\<lparr> res_str := (\<lambda>r. replicate 1600 120) \<rparr>"

theorem roll_many_output_size_witness:
  "roll_many long_d20 (lit ''@u'') 0 3 (lit ''1+1'') None None
     = (Inr (), Parse (lit ''1+1'') # [Roll, Roll, Roll]
          @ [Delete,
             Send (lit ''@u'' @ [10] @ lit ''Rolling 3 iterations...'' @ [10] @ replicate 1600 120
                   @ [10] @ lit ''['' @ lit ''2'' @ lit '' results omitted for output size.]''
                   @ [10] @ lit ''6 total.''),
             IncreaseStat (lit ''dice_rolled_life'')])"
proof -
  have p: "d20_parse long_d20 (lit ''1+1'') = Inr (lit ''1+1'')"
    by (simp add: long_d20_def sample_d20_def)
  have l: "roll_loop long_d20 (lit ''1+1'') (case None of None \<Rightarrow> NONE | Some a \<Rightarrow> a) None (nat 3)
             0 [] 0 = (Inr ([2, 2, 2], 0), [Roll, Roll, Roll])"
    by (simp add: long_d20_def sample_d20_def roll_loop_numeral lit_def)
  have h: "lit ''Rolling 3 iterations...'' = roll_many_header long_d20 3 None (lit ''1+1'')"
    by (simp add: roll_many_header_def long_d20_def sample_d20_def str_int_def lit_def)
  have f: "lit ''6 total.'' = roll_many_footer long_d20 None [2, 2, 2] 0"
    by (simp add: roll_many_footer_def long_d20_def sample_d20_def str_int_def lit_def)
  have big: "1500 < length (lit ''Rolling 3 iterations...'' @ [10]
      @ join [10] (map (res_str long_d20) [2, 2, 2]) @ [10] @ lit ''6 total.'')"
    by (simp add: long_d20_def)
  from roll_many_output_size[OF _ _ p l h f big, of "lit ''@u''"]
  show ?thesis by (simp add: long_d20_def str_int_def lit_def)
qed

section \<open>The easter egg of the roll command\<close>

text \<open>
  Claim C10. When the input of the roll command is exactly \<open>0/0\<close>, the command sends the
  fixed message and returns: the engine is not called, the message is not deleted, no
  statistic is updated, and the state of the roller is as before.
\<close>

theorem rollCmd_zero_by_zero:
  "rollCmd d author_mention gamelog rctx (lit ''0/0'')
     = ((Inr (), [Send (lit ''What do you expect me to do, destroy the universe?'')]), rctx)"
  by (simp add: rollCmd_def)

theorem rollCmd_zero_by_zero_witness:
  "rollCmd sample_d20 (lit ''@u'') True 0 (lit ''0/0'')
     = ((Inr (), [Send (lit ''What do you expect me to do, destroy the universe?'')]), 0)
   \<and> rollCmd sample_d20 (lit ''@u'') True 0 (lit ''1+1'')
     = ((Inr (), [Roll, Delete, Send (lit ''@u  :game_die:'' @ [10] @ lit ''1 + 1 = `2`''),
                  IncreaseStat (lit ''dice_rolled_life''), GameLog 2]), 1)"
proof -
  have "string_search_adv (lit ''1+1'') = (lit ''1+1'', NONE)"
    by (simp add: string_search_adv_def re_search_word_def word_at_def lit_def isspace_def)
  moreover have "lit ''1+1'' \<noteq> lit ''0/0''" by (simp add: lit_def)
  ultimately have "rollCmd sample_d20 (lit ''@u'') True 0 (lit ''1+1'')
     = ((Inr (), [Roll, Delete, Send (lit ''@u  :game_die:'' @ [10] @ lit ''1 + 1 = `2`''),
                  IncreaseStat (lit ''dice_rolled_life''), GameLog 2]), 1)"
    by (simp add: rollCmd_def sample_d20_def) (simp add: lit_def)
  with rollCmd_zero_by_zero[of sample_d20 "lit ''@u''" True 0] show ?thesis by simp
qed

section \<open>Inline rolls: \<open>Dice.do_inline_rolls\<close>\<close>

text \<open>\<open>s.replace('\n', ' ')\<close>.\<close>

definition replace_newlines :: "str \<Rightarrow> str" where
  "replace_newlines s = map (\<lambda>c. if c = 10 then 32 else c) s"

text \<open>
  The loop over the extracted expressions, with the list \<open>out\<close> it appends to: a syntax
  error is \<open>continue\<close>, a roll error and a result append a line.
\<close>

fun inline_loop ::
  "('ast, 'res, 'ctx) d20 \<Rightarrow> 'ctx \<Rightarrow> (str \<times> str \<times> str) list \<Rightarrow> str list \<Rightarrow> str list" where
  "inline_loop d rctx [] out = out"
| "inline_loop d rctx ((expr, context_before, context_after) # roll_exprs) out =
     (let context_before = replace_newlines context_before;
          context_after = replace_newlines context_after
      in case roller_roll d rctx expr of
           (Inl (RollSyntaxError msg), rctx') \<Rightarrow> inline_loop d rctx' roll_exprs out
         | (Inl (RollError msg), rctx') \<Rightarrow>
             inline_loop d rctx' roll_exprs
               (out @ [context_before @ lit ''('' @ msg @ lit '')'' @ context_after])
         | (Inr result, rctx') \<Rightarrow>
             inline_loop d rctx' roll_exprs
               (out @ [context_before @ lit ''('' @ res_result d result @ lit '')''
                       @ context_after]))"

text \<open>
  \<open>do_inline_rolls\<close>: the text of the reply, or \<open>None\<close> when the command returns without
  replying.
\<close>

definition do_inline_rolls ::
  "('ast, 'res, 'ctx) d20 \<Rightarrow> 'ctx \<Rightarrow> (str \<times> str \<times> str) list \<Rightarrow> str option" where
  "do_inline_rolls d rctx roll_exprs =
     (let out = inline_loop d rctx roll_exprs []
      in if out = [] then None else Some (join [10] out))"

text \<open>
  The same, expression by expression: \<open>outcomes\<close> are the answers of the engine to the
  expressions of the batch in order (each roll continuing from the state the previous one
  left), and \<open>line_of\<close> is what one expression adds to the output for its answer.
\<close>

fun outcomes ::
  "('ast, 'res, 'ctx) d20 \<Rightarrow> 'ctx \<Rightarrow> (str \<times> str \<times> str) list \<Rightarrow> (d20_error + 'res) list" where
  "outcomes d rctx [] = []"
| "outcomes d rctx ((expr, context_before, context_after) # roll_exprs) =
     (case roller_roll d rctx expr of (r, rctx') \<Rightarrow> r # outcomes d rctx' roll_exprs)"

definition line_of ::
  "('ast, 'res, 'ctx) d20 \<Rightarrow> str \<times> str \<times> str \<Rightarrow> d20_error + 'res \<Rightarrow> str list" where
  "line_of d e r =
     (case e of (expr, context_before, context_after) \<Rightarrow>
        (case r of
           Inl (RollSyntaxError msg) \<Rightarrow> []
         | Inl (RollError msg) \<Rightarrow>
             [replace_newlines context_before @ lit ''('' @ msg @ lit '')''
              @ replace_newlines context_after]
         | Inr result \<Rightarrow>
             [replace_newlines context_before @ lit ''('' @ res_result d result @ lit '')''
              @ replace_newlines context_after]))"

lemma inline_loop_lines:
  "inline_loop d rctx roll_exprs out
     = out @ concat (map2 (line_of d) roll_exprs (outcomes d rctx roll_exprs))"
proof (induction roll_exprs arbitrary: rctx out)
  case Nil
  then show ?case by simp
next
  case (Cons e es)
  obtain expr cb ca where e: "e = (expr, cb, ca)" by (cases e)
  obtain r rctx' where r: "roller_roll d rctx expr = (r, rctx')"
    by (cases "roller_roll d rctx expr")
  show ?case
  proof (cases r)
    case (Inl err)
    then show ?thesis
      using Cons.IH[of rctx'] e r by (cases err) (simp_all add: line_of_def)
  next
    case (Inr result)
    then show ?thesis
      using Cons.IH[of rctx'] e r by (simp add: line_of_def)
  qed
qed

lemma length_outcomes: "length (outcomes d rctx roll_exprs) = length roll_exprs"
proof (induction roll_exprs arbitrary: rctx)
  case Nil
  then show ?case by simp
next
  case (Cons e es)
  then show ?case by (cases e) (simp split: prod.splits)
qed

text \<open>
  Claim C6. For every batch of extracted expressions, the output lines are the lines of
  the expressions in order, every expression of the batch being rolled: an expression
  that raises a syntax error adds no line, one that raises a roll error adds a line with
  the error message between the two contexts, and the later expressions are processed
  all the same; when there is no output line, no reply is sent.
\<close>

theorem do_inline_rolls_lines:
  "inline_loop d rctx roll_exprs []
     = concat (map2 (line_of d) roll_exprs (outcomes d rctx roll_exprs))
   \<and> length (outcomes d rctx roll_exprs) = length roll_exprs
   \<and> line_of d (expr, context_before, context_after) (Inl (RollSyntaxError msg)) = []
   \<and> line_of d (expr, context_before, context_after) (Inl (RollError msg))
       = [replace_newlines context_before @ lit ''('' @ msg @ lit '')''
          @ replace_newlines context_after]
   \<and> (do_inline_rolls d rctx roll_exprs = None \<longleftrightarrow> inline_loop d rctx roll_exprs [] = [])
   \<and> (inline_loop d rctx roll_exprs [] \<noteq> [] \<longrightarrow>
        do_inline_rolls d rctx roll_exprs = Some (join [10] (inline_loop d rctx roll_exprs [])))"
  by (simp add: inline_loop_lines[of d rctx roll_exprs "[]"] length_outcomes line_of_def
      do_inline_rolls_def Let_def)

theorem do_inline_rolls_lines_witness:
  "outcomes sample_d20 0
      [(lit ''1d6+('', lit ''I hit for '', lit '' damage''),
       (lit ''1/0'', lit ''then '', lit '' more''),
       (lit ''1+1'', lit ''and '', [])]
     = [Inl (RollSyntaxError (lit ''Unexpected input'')),
        Inl (RollError (lit ''Cannot divide by zero.'')), Inr 2]
   \<and> inline_loop sample_d20 0
      [(lit ''1d6+('', lit ''I hit for '', lit '' damage''),
       (lit ''1/0'', lit ''then '', lit '' more''),
       (lit ''1+1'', lit ''and '', [])] []
     = [lit ''then (Cannot divide by zero.) more'', lit ''and (1 + 1 = `2`)'']
   \<and> do_inline_rolls sample_d20 0
      [(lit ''1d6+('', lit ''I hit for '', lit '' damage''),
       (lit ''1/0'', lit ''then '', lit '' more''),
       (lit ''1+1'', lit ''and '', [])]
     = Some (lit ''then (Cannot divide by zero.) more'' @ [10] @ lit ''and (1 + 1 = `2`)'')
   \<and> do_inline_rolls sample_d20 0 [(lit ''1d6+('', lit ''I hit for '', lit '' damage'')] = None"
proof -
  have o: "outcomes sample_d20 0
      [(lit ''1d6+('', lit ''I hit for '', lit '' damage''),
       (lit ''1/0'', lit ''then '', lit '' more''),
       (lit ''1+1'', lit ''and '', [])]
     = [Inl (RollSyntaxError (lit ''Unexpected input'')),
        Inl (RollError (lit ''Cannot divide by zero.'')), Inr 2]"
    by (simp add: sample_d20_def lit_def)
  have o1: "outcomes sample_d20 0 [(lit ''1d6+('', lit ''I hit for '', lit '' damage'')]
     = [Inl (RollSyntaxError (lit ''Unexpected input''))]"
    by (simp add: sample_d20_def lit_def)
  from do_inline_rolls_lines[of sample_d20 0
      "[(lit ''1d6+('', lit ''I hit for '', lit '' damage''),
        (lit ''1/0'', lit ''then '', lit '' more''),
        (lit ''1+1'', lit ''and '', [])]"]
    do_inline_rolls_lines[of sample_d20 0 "[(lit ''1d6+('', lit ''I hit for '', lit '' damage'')]"]
  show ?thesis
    unfolding o o1
    by (simp add: line_of_def replace_newlines_def sample_d20_def) (simp add: lit_def)
qed

end
